theory Spec2Isabelle
  imports Complex_Main "HOL-Library.Word"
begin

unbundle bit_operations_syntax

section \<open>Bytes, errors and typed arrays\<close>

text \<open>
  A \<open>Uint8Array\<close> is a list of 8-bit words. Every \<open>throw\<close> of the crypto package is a
  constructor of \<open>error\<close>, one per message of the source; the errors raised by the
  libraries the package calls (tweetnacl, tweetnacl-util, bip39) have constructors of
  their own.
\<close>

type_synonym byte = "8 word"
type_synonym bytes = "byte list"

datatype error =
    InvalidEncoding            \<comment> \<open>tweetnacl-util: TypeError('invalid encoding')\<close>
  | BadKeySize                 \<comment> \<open>tweetnacl: 'bad key size'\<close>
  | BadNonceSize               \<comment> \<open>tweetnacl: 'bad nonce size'\<close>
  | BadPublicKeySize           \<comment> \<open>tweetnacl: 'bad public key size'\<close>
  | BadSecretKeySize           \<comment> \<open>tweetnacl: 'bad secret key size'\<close>
  | RangeError                 \<comment> \<open>TypedArray.prototype.set: source does not fit\<close>
  | InvalidMnemonic            \<comment> \<open>bip39: 'Invalid mnemonic' and its siblings\<close>
  | InvalidKey                 \<comment> \<open>'Ungueltiger Key: Muss 32 Bytes sein'\<close>
  | InvalidSymmetricKey        \<comment> \<open>'Ungueltiger symmetrischer Key'\<close>
  | InvalidRecipientPublicKey  \<comment> \<open>'Ungueltiger Empfaenger Public Key'\<close>
  | InvalidSenderPrivateKey    \<comment> \<open>'Ungueltiger Sender Private Key'\<close>
  | InvalidSenderPublicKey     \<comment> \<open>'Ungueltiger Sender Public Key'\<close>
  | InvalidRecipientPrivateKey \<comment> \<open>'Ungueltiger Empfaenger Private Key'\<close>
  | InvalidPrivateKey          \<comment> \<open>'Ungueltiger Private Key'\<close>
  | PayloadTooShort            \<comment> \<open>'Payload zu kurz'\<close>
  | UnknownVersion "byte option"
      \<comment> \<open>'Unbekannte Payload-Version: v', \<open>None\<close> for \<open>undefined\<close>\<close>
  | UnsupportedVersion byte    \<comment> \<open>'Nicht unterstuetzte Payload-Version: v'\<close>
  | DecryptionFailed           \<comment> \<open>'Entschluesselung fehlgeschlagen: ...'\<close>
  | CorruptKey                 \<comment> \<open>'Entschluesselter Key hat falsche Laenge'\<close>
  | InvalidPhrase              \<comment> \<open>'Ungueltige Seed Phrase'\<close>

text \<open>\<open>try { body } catch { handler }\<close>: the handler runs on every error of the body.\<close>

definition try_catch :: "error + 'a \<Rightarrow> (error \<Rightarrow> error + 'a) \<Rightarrow> error + 'a" where
  "try_catch body handler = (case body of Inl e \<Rightarrow> handler e | Inr v \<Rightarrow> Inr v)"

text \<open>\<open>dst.set(src, off)\<close> copies \<open>src\<close> into \<open>dst\<close> at \<open>off\<close> and raises when it does not fit.\<close>

definition typed_set :: "bytes \<Rightarrow> bytes \<Rightarrow> nat \<Rightarrow> error + bytes" where
  "typed_set dst src off =
     (if length dst < off + length src then Inl RangeError
      else Inr (take off dst @ src @ drop (off + length src) dst))"

text \<open>\<open>xs.slice(a, b)\<close> and \<open>xs.slice(a)\<close> for indices that are not negative.\<close>

definition slice :: "'a list \<Rightarrow> nat \<Rightarrow> nat \<Rightarrow> 'a list" where
  "slice xs a b = take (b - a) (drop a xs)"

definition slice_from :: "'a list \<Rightarrow> nat \<Rightarrow> 'a list" where
  "slice_from xs a = drop a xs"

section \<open>constants.ts\<close>

definition CURRENT_PAYLOAD_VERSION :: byte where "CURRENT_PAYLOAD_VERSION = 1"
definition VERSION_BYTES :: nat where "VERSION_BYTES = 1"
definition NONCE_BYTES :: nat where "NONCE_BYTES = 24"
definition AUTH_TAG_BYTES :: nat where "AUTH_TAG_BYTES = 16"
definition WORD_COUNT :: nat where "WORD_COUNT = 12"
definition SECRET_KEY :: nat where "SECRET_KEY = 32"
definition PUBLIC_KEY :: nat where "PUBLIC_KEY = 32"
definition PRIVATE_KEY :: nat where "PRIVATE_KEY = 32"

section \<open>Base64 as tweetnacl-util reads and writes it\<close>

text \<open>
  \<open>encodeBase64\<close> and \<open>decodeBase64\<close> belong to tweetnacl-util. The decoder first
  validates its argument against
  \<^verbatim>\<open>^(?:[A-Za-z0-9+/]{2}[A-Za-z0-9+/]{2})*(?:[A-Za-z0-9+/]{2}==|[A-Za-z0-9+/]{3}=)?$\<close>
  and raises \<open>TypeError('invalid encoding')\<close> when it does not match.
\<close>

definition b64_alphabet :: string where
  "b64_alphabet = ''ABCDEFGHIJKLMNOPQRSTUVWXYZabcdefghijklmnopqrstuvwxyz0123456789+/''"

fun index_of :: "'a \<Rightarrow> 'a list \<Rightarrow> nat option" where
  "index_of x [] = None"
| "index_of x (y # ys) = (if x = y then Some 0 else map_option Suc (index_of x ys))"

definition b64_char :: "nat \<Rightarrow> char" where
  "b64_char n = b64_alphabet ! n"

definition b64_value :: "char \<Rightarrow> nat option" where
  "b64_value c = index_of c b64_alphabet"

definition pad_char :: char where "pad_char = CHR ''=''"

text \<open>Three bytes are four groups of six bits; two bytes are three, one byte is two.\<close>

definition sextet0 :: "byte \<Rightarrow> nat" where
  "sextet0 a = unat a div 4"

definition sextet1 :: "byte \<Rightarrow> byte \<Rightarrow> nat" where
  "sextet1 a b = (unat a mod 4) * 16 + unat b div 16"

definition sextet2 :: "byte \<Rightarrow> byte \<Rightarrow> nat" where
  "sextet2 b c = (unat b mod 16) * 4 + unat c div 64"

definition sextet3 :: "byte \<Rightarrow> nat" where
  "sextet3 c = unat c mod 64"

fun encodeBase64 :: "bytes \<Rightarrow> string" where
  "encodeBase64 [] = []"
| "encodeBase64 [a] =
     [b64_char (sextet0 a), b64_char (sextet1 a 0), pad_char, pad_char]"
| "encodeBase64 [a, b] =
     [b64_char (sextet0 a), b64_char (sextet1 a b), b64_char (sextet2 b 0), pad_char]"
| "encodeBase64 (a # b # c # rest) =
     [b64_char (sextet0 a), b64_char (sextet1 a b), b64_char (sextet2 b c),
      b64_char (sextet3 c)] @ encodeBase64 rest"

definition octet0 :: "nat \<Rightarrow> nat \<Rightarrow> byte" where
  "octet0 s0 s1 = of_nat (s0 * 4 + s1 div 16)"

definition octet1 :: "nat \<Rightarrow> nat \<Rightarrow> byte" where
  "octet1 s1 s2 = of_nat ((s1 mod 16) * 16 + s2 div 4)"

definition octet2 :: "nat \<Rightarrow> nat \<Rightarrow> byte" where
  "octet2 s2 s3 = of_nat ((s2 mod 4) * 64 + s3)"

text \<open>The last group of four characters may carry one or two padding characters.\<close>

definition decode_last :: "char \<Rightarrow> char \<Rightarrow> char \<Rightarrow> char \<Rightarrow> error + bytes" where
  "decode_last c0 c1 c2 c3 =
     (case (b64_value c0, b64_value c1) of
        (Some s0, Some s1) \<Rightarrow>
          (case (b64_value c2, b64_value c3) of
             (Some s2, Some s3) \<Rightarrow> Inr [octet0 s0 s1, octet1 s1 s2, octet2 s2 s3]
           | (Some s2, None) \<Rightarrow>
               (if c3 = pad_char then Inr [octet0 s0 s1, octet1 s1 s2]
                else Inl InvalidEncoding)
           | (None, _) \<Rightarrow>
               (if c2 = pad_char \<and> c3 = pad_char then Inr [octet0 s0 s1]
                else Inl InvalidEncoding))
      | _ \<Rightarrow> Inl InvalidEncoding)"

fun decodeBase64 :: "string \<Rightarrow> error + bytes" where
  "decodeBase64 [] = Inr []"
| "decodeBase64 [c0, c1, c2, c3] = decode_last c0 c1 c2 c3"
| "decodeBase64 (c0 # c1 # c2 # c3 # rest) =
     (case (b64_value c0, b64_value c1, b64_value c2, b64_value c3) of
        (Some s0, Some s1, Some s2, Some s3) \<Rightarrow>
          (case decodeBase64 rest of
             Inl e \<Rightarrow> Inl e
           | Inr bs \<Rightarrow> Inr (octet0 s0 s1 # octet1 s1 s2 # octet2 s2 s3 # bs))
      | _ \<Rightarrow> Inl InvalidEncoding)"
| "decodeBase64 _ = Inl InvalidEncoding"

section \<open>The tweetnacl interface\<close>

text \<open>
  The package computes no cipher of its own: it calls tweetnacl. The primitives are
  taken as they are, as the fields of a record, and the functions below are stated for
  every such record. The wrappers reproduce the argument checks tweetnacl makes before
  it runs a primitive (\<open>checkLengths\<close>, \<open>checkBoxLengths\<close>).
\<close>

record nacl =
  crypto_secretbox :: "bytes \<Rightarrow> bytes \<Rightarrow> bytes \<Rightarrow> bytes"
    \<comment> \<open>message, nonce, key\<close>
  crypto_secretbox_open :: "bytes \<Rightarrow> bytes \<Rightarrow> bytes \<Rightarrow> bytes option"
    \<comment> \<open>box, nonce, key; \<open>None\<close> is JavaScript's \<open>null\<close>\<close>
  crypto_box :: "bytes \<Rightarrow> bytes \<Rightarrow> bytes \<Rightarrow> bytes \<Rightarrow> bytes"
    \<comment> \<open>message, nonce, their public key, my secret key\<close>
  crypto_box_open :: "bytes \<Rightarrow> bytes \<Rightarrow> bytes \<Rightarrow> bytes \<Rightarrow> bytes option"
    \<comment> \<open>box, nonce, their public key, my secret key\<close>
  crypto_hash :: "bytes \<Rightarrow> bytes"
  crypto_scalarmult_base :: "bytes \<Rightarrow> bytes"
    \<comment> \<open>the public key of a secret key\<close>

definition nacl_secretbox :: "nacl \<Rightarrow> bytes \<Rightarrow> bytes \<Rightarrow> bytes \<Rightarrow> error + bytes" where
  "nacl_secretbox L msg nonce key =
     (if length key \<noteq> 32 then Inl BadKeySize
      else if length nonce \<noteq> 24 then Inl BadNonceSize
      else Inr (crypto_secretbox L msg nonce key))"

definition nacl_secretbox_open ::
  "nacl \<Rightarrow> bytes \<Rightarrow> bytes \<Rightarrow> bytes \<Rightarrow> error + bytes option" where
  "nacl_secretbox_open L box nonce key =
     (if length key \<noteq> 32 then Inl BadKeySize
      else if length nonce \<noteq> 24 then Inl BadNonceSize
      else Inr (crypto_secretbox_open L box nonce key))"

definition nacl_box :: "nacl \<Rightarrow> bytes \<Rightarrow> bytes \<Rightarrow> bytes \<Rightarrow> bytes \<Rightarrow> error + bytes" where
  "nacl_box L msg nonce publicKey secretKey =
     (if length publicKey \<noteq> 32 then Inl BadPublicKeySize
      else if length secretKey \<noteq> 32 then Inl BadSecretKeySize
      else if length nonce \<noteq> 24 then Inl BadNonceSize
      else Inr (crypto_box L msg nonce publicKey secretKey))"

definition nacl_box_open ::
  "nacl \<Rightarrow> bytes \<Rightarrow> bytes \<Rightarrow> bytes \<Rightarrow> bytes \<Rightarrow> error + bytes option" where
  "nacl_box_open L box nonce publicKey secretKey =
     (if length publicKey \<noteq> 32 then Inl BadPublicKeySize
      else if length secretKey \<noteq> 32 then Inl BadSecretKeySize
      else if length nonce \<noteq> 24 then Inl BadNonceSize
      else Inr (crypto_box_open L box nonce publicKey secretKey))"

definition nacl_box_keyPair_fromSecretKey :: "nacl \<Rightarrow> bytes \<Rightarrow> error + bytes \<times> bytes" where
  "nacl_box_keyPair_fromSecretKey L secretKey =
     (if length secretKey \<noteq> 32 then Inl BadSecretKeySize
      else Inr (crypto_scalarmult_base L secretKey, secretKey))"

text \<open>
  \<open>nacl.randomBytes\<close> reads the system's random source. The source is an explicit
  argument, the unbounded sequence of the bytes still to come; a call takes the first
  \<open>n\<close> of them and leaves the rest.
\<close>

type_synonym rng = "nat \<Rightarrow> byte"

definition randomBytes :: "nat \<Rightarrow> rng \<Rightarrow> bytes \<times> rng" where
  "randomBytes n g = (map g [0..<n], \<lambda>i. g (n + i))"

section \<open>encrypt.ts: symmetric encryption of gallery content\<close>

text \<open>
  The payload is assembled the same way by \<open>encrypt\<close> and by
  \<open>encryptKeyForRecipient\<close>: a zeroed array of the final size, the version at index 0,
  the nonce behind it, the ciphertext behind the nonce.
\<close>

definition assemble_payload :: "bytes \<Rightarrow> bytes \<Rightarrow> error + bytes" where
  "assemble_payload nonce ciphertext =
     (let payload = replicate (VERSION_BYTES + NONCE_BYTES + length ciphertext) 0;
          payload = payload[0 := CURRENT_PAYLOAD_VERSION]
      in case typed_set payload nonce VERSION_BYTES of
           Inl e \<Rightarrow> Inl e
         | Inr payload \<Rightarrow> typed_set payload ciphertext (VERSION_BYTES + NONCE_BYTES))"

definition encrypt :: "nacl \<Rightarrow> bytes \<Rightarrow> string \<Rightarrow> rng \<Rightarrow> error + string \<times> rng" where
  "encrypt L data key g =
     (case decodeBase64 key of
        Inl e \<Rightarrow> Inl e
      | Inr keyBytes \<Rightarrow>
          if length keyBytes \<noteq> SECRET_KEY then Inl InvalidKey
          else
            (case randomBytes NONCE_BYTES g of
               (nonce, g') \<Rightarrow>
                 (case nacl_secretbox L data nonce keyBytes of
                    Inl e \<Rightarrow> Inl e
                  | Inr ciphertext \<Rightarrow>
                      (case assemble_payload nonce ciphertext of
                         Inl e \<Rightarrow> Inl e
                       | Inr payload \<Rightarrow> Inr (encodeBase64 payload, g')))))"

definition decryptV1 :: "nacl \<Rightarrow> bytes \<Rightarrow> bytes \<Rightarrow> error + bytes" where
  "decryptV1 L payloadBytes keyBytes =
     (let nonce = slice payloadBytes VERSION_BYTES (VERSION_BYTES + NONCE_BYTES);
          ciphertext = slice_from payloadBytes (VERSION_BYTES + NONCE_BYTES)
      in case nacl_secretbox_open L ciphertext nonce keyBytes of
           Inl e \<Rightarrow> Inl e
         | Inr None \<Rightarrow> Inl DecryptionFailed
         | Inr (Some decrypted) \<Rightarrow> Inr decrypted)"

definition decrypt :: "nacl \<Rightarrow> string \<Rightarrow> string \<Rightarrow> error + bytes" where
  "decrypt L payload key =
     (case decodeBase64 payload of
        Inl e \<Rightarrow> Inl e
      | Inr payloadBytes \<Rightarrow>
          (case decodeBase64 key of
             Inl e \<Rightarrow> Inl e
           | Inr keyBytes \<Rightarrow>
               if length keyBytes \<noteq> SECRET_KEY then Inl InvalidKey
               else if length payloadBytes < VERSION_BYTES + NONCE_BYTES + AUTH_TAG_BYTES
               then Inl PayloadTooShort
               else
                 (case payloadBytes of
                    [] \<Rightarrow> Inl (UnknownVersion None)
                  | version # _ \<Rightarrow>
                      if version > CURRENT_PAYLOAD_VERSION
                      then Inl (UnknownVersion (Some version))
                      else if version = 1 then decryptV1 L payloadBytes keyBytes
                      else Inl (UnsupportedVersion version))))"

section \<open>share.ts: a symmetric key for one recipient, and for many\<close>

definition encryptKeyForRecipient ::
  "nacl \<Rightarrow> string \<Rightarrow> string \<Rightarrow> string \<Rightarrow> rng \<Rightarrow> error + string \<times> rng" where
  "encryptKeyForRecipient L symmetricKey recipientPublicKey senderPrivateKey g =
     (case decodeBase64 symmetricKey of
        Inl e \<Rightarrow> Inl e
      | Inr keyBytes \<Rightarrow>
     (case decodeBase64 recipientPublicKey of
        Inl e \<Rightarrow> Inl e
      | Inr recipientPub \<Rightarrow>
     (case decodeBase64 senderPrivateKey of
        Inl e \<Rightarrow> Inl e
      | Inr senderPriv \<Rightarrow>
          if length keyBytes \<noteq> SECRET_KEY then Inl InvalidSymmetricKey
          else if length recipientPub \<noteq> PUBLIC_KEY then Inl InvalidRecipientPublicKey
          else if length senderPriv \<noteq> PRIVATE_KEY then Inl InvalidSenderPrivateKey
          else
            (case randomBytes NONCE_BYTES g of
               (nonce, g') \<Rightarrow>
                 (case nacl_box L keyBytes nonce recipientPub senderPriv of
                    Inl e \<Rightarrow> Inl e
                  | Inr ciphertext \<Rightarrow>
                      (case assemble_payload nonce ciphertext of
                         Inl e \<Rightarrow> Inl e
                       | Inr payload \<Rightarrow> Inr (encodeBase64 payload, g')))))))"

definition decryptKeyFromSender :: "nacl \<Rightarrow> string \<Rightarrow> string \<Rightarrow> string \<Rightarrow> error + string" where
  "decryptKeyFromSender L encryptedKey senderPublicKey recipientPrivateKey =
     (case decodeBase64 encryptedKey of
        Inl e \<Rightarrow> Inl e
      | Inr payloadBytes \<Rightarrow>
     (case decodeBase64 senderPublicKey of
        Inl e \<Rightarrow> Inl e
      | Inr senderPub \<Rightarrow>
     (case decodeBase64 recipientPrivateKey of
        Inl e \<Rightarrow> Inl e
      | Inr recipientPriv \<Rightarrow>
          if length senderPub \<noteq> PUBLIC_KEY then Inl InvalidSenderPublicKey
          else if length recipientPriv \<noteq> PRIVATE_KEY then Inl InvalidRecipientPrivateKey
          else if length payloadBytes
                    < VERSION_BYTES + NONCE_BYTES + SECRET_KEY + AUTH_TAG_BYTES
          then Inl PayloadTooShort
          else
            (case payloadBytes of
               [] \<Rightarrow> Inl (UnknownVersion None)
             | version # _ \<Rightarrow>
                 if version > CURRENT_PAYLOAD_VERSION
                 then Inl (UnknownVersion (Some version))
                 else
                   (let nonce = slice payloadBytes VERSION_BYTES (VERSION_BYTES + NONCE_BYTES);
                        ciphertext = slice_from payloadBytes (VERSION_BYTES + NONCE_BYTES)
                    in case nacl_box_open L ciphertext nonce senderPub recipientPriv of
                         Inl e \<Rightarrow> Inl e
                       | Inr None \<Rightarrow> Inl DecryptionFailed
                       | Inr (Some decrypted) \<Rightarrow>
                           if length decrypted \<noteq> SECRET_KEY then Inl CorruptKey
                           else Inr (encodeBase64 decrypted))))))"

record recipient =
  userId :: string
  publicKey :: string

record grant =
  grantUserId :: string            \<comment> \<open>the field \<open>userId\<close> of the result objects\<close>
  encryptedGalleryKey :: string

text \<open>
  \<open>recipients.map(...)\<close> runs the callback on the recipients in order; an error raised
  for one recipient leaves \<open>map\<close>, and the function, with that error.
\<close>

fun encryptGalleryKeyForMembers ::
  "nacl \<Rightarrow> string \<Rightarrow> recipient list \<Rightarrow> string \<Rightarrow> rng \<Rightarrow> error + grant list \<times> rng" where
  "encryptGalleryKeyForMembers L galleryKey [] senderPrivateKey g = Inr ([], g)"
| "encryptGalleryKeyForMembers L galleryKey (r # rs) senderPrivateKey g =
     (case encryptKeyForRecipient L galleryKey (publicKey r) senderPrivateKey g of
        Inl e \<Rightarrow> Inl e
      | Inr (payload, g') \<Rightarrow>
          (case encryptGalleryKeyForMembers L galleryKey rs senderPrivateKey g' of
             Inl e \<Rightarrow> Inl e
           | Inr (grants, g'') \<Rightarrow>
               Inr (\<lparr>grantUserId = userId r, encryptedGalleryKey = payload\<rparr> # grants, g'')))"

section \<open>JavaScript strings\<close>

text \<open>
  A string is a list of 8-bit characters, read as the code units U+0000 to U+00FF.
  In that range \<open>String.prototype.trim\<close> and the class \<open>\s\<close> of a regular expression
  know the same seven white-space characters, and \<open>toLowerCase\<close> moves the letters
  A to Z and the capital letters of Latin-1.
\<close>

definition is_space :: "char \<Rightarrow> bool" where
  "is_space c \<longleftrightarrow> (of_char c :: nat) \<in> {9, 10, 11, 12, 13, 32, 160}"

definition is_upper :: "char \<Rightarrow> bool" where
  "is_upper c \<longleftrightarrow>
     (let n = (of_char c :: nat)
      in (65 \<le> n \<and> n \<le> 90) \<or> (192 \<le> n \<and> n \<le> 222 \<and> n \<noteq> 215))"

definition lower_char :: "char \<Rightarrow> char" where
  "lower_char c = (if is_upper c then char_of ((of_char c :: nat) + 32) else c)"

definition toLowerCase :: "string \<Rightarrow> string" where
  "toLowerCase s = map lower_char s"

definition trim :: "string \<Rightarrow> string" where
  "trim s = rev (dropWhile is_space (rev (dropWhile is_space s)))"

text \<open>
  \<open>s.split(/\s+/)\<close>: the pieces between the maximal runs of white space. A run at the
  start or at the end leaves an empty piece there, and the empty string splits into one
  empty piece.
\<close>

function split_ws :: "string \<Rightarrow> string list" where
  "split_ws s =
     (case dropWhile (\<lambda>c. \<not> is_space c) s of
        [] \<Rightarrow> [s]
      | r # rs \<Rightarrow> takeWhile (\<lambda>c. \<not> is_space c) s # split_ws (dropWhile is_space rs))"
  by pat_completeness auto
termination
proof (relation "measure length")
  fix s :: string and r rs
  assume "dropWhile (\<lambda>c. \<not> is_space c) s = r # rs"
  then have "length (r # rs) \<le> length s"
    by (metis length_dropWhile_le)
  moreover have "length (dropWhile is_space rs) \<le> length rs"
    by (rule length_dropWhile_le)
  ultimately show "(dropWhile is_space rs, s) \<in> measure length"
    by simp
qed simp

declare split_ws.simps [simp del]

text \<open>\<open>words.join(' ')\<close>.\<close>

fun join_space :: "string list \<Rightarrow> string" where
  "join_space [] = []"
| "join_space [w] = w"
| "join_space (w # ws) = w @ CHR '' '' # join_space ws"

section \<open>The bip39 interface\<close>

text \<open>
  The word list, its checksum and the decoding of a mnemonic belong to bip39. Its two
  functions that the package calls are the fields of a record; \<open>validateMnemonic\<close>
  returns a boolean and never raises, \<open>mnemonicToEntropy\<close> returns the entropy in
  hexadecimal or raises.
\<close>

record bip39 =
  validateMnemonic :: "string \<Rightarrow> bool"
  mnemonicToEntropy :: "string \<Rightarrow> error + string"

text \<open>
  \<open>Buffer.from(hex, 'hex')\<close> reads two hexadecimal digits per byte and stops at the
  first pair that is not one.
\<close>

definition hex_digits :: string where
  "hex_digits = ''0123456789abcdef''"

definition hex_value :: "char \<Rightarrow> nat option" where
  "hex_value c = index_of (lower_char c) hex_digits"

fun buffer_from_hex :: "string \<Rightarrow> bytes" where
  "buffer_from_hex (c1 # c2 # rest) =
     (case (hex_value c1, hex_value c2) of
        (Some h, Some l) \<Rightarrow> of_nat (h * 16 + l) # buffer_from_hex rest
      | _ \<Rightarrow> [])"
| "buffer_from_hex _ = []"

text \<open>\<open>buffer.toString('hex')\<close>: two lower-case digits per byte.\<close>

definition to_hex :: "bytes \<Rightarrow> string" where
  "to_hex bs = concat (map (\<lambda>b. [hex_digits ! (unat b div 16), hex_digits ! (unat b mod 16)]) bs)"

section \<open>seedPhrase.ts\<close>

definition validateSeedPhrase :: "bip39 \<Rightarrow> string \<Rightarrow> bool" where
  "validateSeedPhrase B phrase =
     (let words = split_ws (toLowerCase (trim phrase))
      in if length words \<noteq> WORD_COUNT then False
         else validateMnemonic B (toLowerCase (trim phrase)))"

definition normalizeSeedPhrase :: "string \<Rightarrow> string" where
  "normalizeSeedPhrase phrase = join_space (split_ws (toLowerCase (trim phrase)))"

definition seedPhraseToEntropy :: "bip39 \<Rightarrow> string \<Rightarrow> error + bytes" where
  "seedPhraseToEntropy B phrase =
     (let normalized = normalizeSeedPhrase phrase
      in if \<not> validateSeedPhrase B normalized then Inl InvalidPhrase
         else (case mnemonicToEntropy B normalized of
                 Inl e \<Rightarrow> Inl e
               | Inr entropyHex \<Rightarrow> Inr (buffer_from_hex entropyHex)))"

section \<open>keys.ts: key derivation\<close>

record UserKeyPair =
  kpPublicKey :: string    \<comment> \<open>the field \<open>publicKey\<close>\<close>
  kpPrivateKey :: string   \<comment> \<open>the field \<open>privateKey\<close>\<close>

definition deriveKeyPairFromSeedPhrase :: "nacl \<Rightarrow> bip39 \<Rightarrow> string \<Rightarrow> error + UserKeyPair" where
  "deriveKeyPairFromSeedPhrase L B seedPhrase =
     (let normalized = normalizeSeedPhrase seedPhrase
      in if \<not> validateSeedPhrase B normalized then Inl InvalidPhrase
         else
           (case seedPhraseToEntropy B normalized of
              Inl e \<Rightarrow> Inl e
            | Inr entropy \<Rightarrow>
                (let hash = crypto_hash L entropy;
                     seed = slice hash 0 PRIVATE_KEY
                 in case nacl_box_keyPair_fromSecretKey L seed of
                      Inl e \<Rightarrow> Inl e
                    | Inr (pk, sk) \<Rightarrow>
                        Inr \<lparr>kpPublicKey = encodeBase64 pk, kpPrivateKey = encodeBase64 sk\<rparr>)))"

section \<open>keys.ts: key validation\<close>

definition validateKey :: "string \<Rightarrow> int \<Rightarrow> error + bool" where
  "validateKey key expectedLength =
     try_catch
       (case decodeBase64 key of
          Inl e \<Rightarrow> Inl e
        | Inr decoded \<Rightarrow> Inr (int (length decoded) = expectedLength))
       (\<lambda>_. Inr False)"

definition validatePublicKey :: "string \<Rightarrow> error + bool" where
  "validatePublicKey key = validateKey key (int PUBLIC_KEY)"

definition validatePrivateKey :: "string \<Rightarrow> error + bool" where
  "validatePrivateKey key = validateKey key (int PRIVATE_KEY)"

definition validateSymmetricKey :: "string \<Rightarrow> error + bool" where
  "validateSymmetricKey key = validateKey key (int SECRET_KEY)"

section \<open>keys.ts: the public key of a private key\<close>


section \<open>seedPhrase.ts: the positions of the quiz\<close>

text \<open>
  \<open>count\<close> is a JavaScript number: a finite number, \<open>NaN\<close> or an infinity. The
  loop compares the size of the set with it.
\<close>

datatype js_number = Finite real | NaN | PosInfinity | NegInfinity

definition size_less :: "nat \<Rightarrow> js_number \<Rightarrow> bool" where
  "size_less n c =
     (case c of Finite x \<Rightarrow> real n < x | NaN \<Rightarrow> False | PosInfinity \<Rightarrow> True
      | NegInfinity \<Rightarrow> False)"

text \<open>
  \<open>Math.random()\<close> returns a binary64 number in \<open>[0, 1)\<close>. Such a number is
  \<open>m / 2 ^ e\<close> for a mantissa \<open>m\<close> below \<open>2 ^ 53\<close> and an exponent \<open>e\<close> of
  at most 1074, and every such quotient below 1 is one of them.
\<close>

type_synonym double01 = "int \<times> nat"

definition is_random :: "double01 \<Rightarrow> bool" where
  "is_random d \<longleftrightarrow> (case d of (m, e) \<Rightarrow> 0 \<le> m \<and> m < 2 ^ 53 \<and> m < 2 ^ e \<and> e \<le> 1074)"

text \<open>
  The product \<open>Math.random() * 12\<close> is a binary64 multiplication: the exact product
  \<open>12 * m / 2 ^ e\<close> is rounded to 53 significant bits, to the nearest number and to
  the even one of two nearest. \<open>excess_bits n\<close> is the number of bits that \<open>n\<close> has
  beyond 53, and \<open>round_half_even n k\<close> drops \<open>k\<close> bits of \<open>n\<close>. The product is
  at least \<open>2 ^ 53 / 2 ^ 1074\<close> whenever bits are dropped, so the result is a normal
  number and 53 bits is its precision.
\<close>

function excess_bits :: "int \<Rightarrow> nat" where
  "excess_bits n = (if n < 2 ^ 53 then 0 else Suc (excess_bits (n div 2)))"
  by pat_completeness auto
termination
  by (relation "measure nat") auto

declare excess_bits.simps [simp del]

definition round_half_even :: "int \<Rightarrow> nat \<Rightarrow> int" where
  "round_half_even n k =
     (let q = n div 2 ^ k; r = n mod 2 ^ k
      in if 2 ^ k < 2 * r \<or> (2 * r = 2 ^ k \<and> odd q) then q + 1 else q)"

text \<open>
  \<open>Math.random\<close> is the sequence of the numbers it is going to return; the loop reads
  it from index \<open>i\<close> on. \<open>random_pos rnd i\<close> is
  \<open>Math.floor(Math.random() * 12) + 1\<close> for the draw \<open>i\<close>; \<open>product\<close> is the
  rounded product in units of \<open>1 / 2 ^ e\<close>. A \<open>Set\<close> keeps its elements in
  insertion order, without duplicates. The loop has no bound in the source, so it is a
  partial function: \<open>None\<close> means that it never leaves.
\<close>

definition set_add :: "int list \<Rightarrow> int \<Rightarrow> int list" where
  "set_add positions pos = (if pos \<in> set positions then positions else positions @ [pos])"

definition random_pos :: "(nat \<Rightarrow> double01) \<Rightarrow> nat \<Rightarrow> int" where
  "random_pos rnd i =
     (case rnd i of
        (m, e) \<Rightarrow>
          (let n = m * int WORD_COUNT;
               k = excess_bits n;
               product = round_half_even n k * 2 ^ k
           in product div 2 ^ e + 1))"

partial_function (option) quiz_loop ::
  "(nat \<Rightarrow> double01) \<Rightarrow> js_number \<Rightarrow> nat \<Rightarrow> int list \<Rightarrow> int list option" where
  "quiz_loop rnd count i positions =
     (if size_less (length positions) count
      then quiz_loop rnd count (Suc i) (set_add positions (random_pos rnd i))
      else Some positions)"

definition generateQuizPositions :: "(nat \<Rightarrow> double01) \<Rightarrow> js_number \<Rightarrow> int list option" where
  "generateQuizPositions rnd count = map_option sort (quiz_loop rnd count 0 [])"

section \<open>The parts of a payload\<close>

text \<open>The nonce and the ciphertext as \<open>decryptV1\<close> and \<open>decryptKeyFromSender\<close> cut them out.\<close>

definition payload_nonce :: "bytes \<Rightarrow> bytes" where
  "payload_nonce payloadBytes = slice payloadBytes VERSION_BYTES (VERSION_BYTES + NONCE_BYTES)"

definition payload_ciphertext :: "bytes \<Rightarrow> bytes" where
  "payload_ciphertext payloadBytes = slice_from payloadBytes (VERSION_BYTES + NONCE_BYTES)"

section \<open>What the package expects of tweetnacl\<close>

text \<open>
  Authenticated encryption opens what it sealed, and a sealed message is 16 bytes longer
  than the message (the Poly1305 tag). A box sealed for the public key of \<open>b\<close> with
  the secret key \<open>a\<close> is opened with the public key of \<open>a\<close> and the secret key
  \<open>b\<close>. Public keys are 32 bytes, hashes are 64.
\<close>

definition secretbox_contract :: "nacl \<Rightarrow> bool" where
  "secretbox_contract L \<longleftrightarrow>
     (\<forall>msg nonce key. length key = 32 \<and> length nonce = 24 \<longrightarrow>
        crypto_secretbox_open L (crypto_secretbox L msg nonce key) nonce key = Some msg
        \<and> length (crypto_secretbox L msg nonce key) = length msg + 16)"

definition box_contract :: "nacl \<Rightarrow> bool" where
  "box_contract L \<longleftrightarrow>
     (\<forall>sk. length sk = 32 \<longrightarrow> length (crypto_scalarmult_base L sk) = 32)
     \<and> (\<forall>msg nonce a b. length a = 32 \<and> length b = 32 \<and> length nonce = 24 \<longrightarrow>
          crypto_box_open L (crypto_box L msg nonce (crypto_scalarmult_base L b) a) nonce
            (crypto_scalarmult_base L a) b = Some msg
          \<and> length (crypto_box L msg nonce (crypto_scalarmult_base L b) a)
              = length msg + 16)"

definition hash_contract :: "nacl \<Rightarrow> bool" where
  "hash_contract L \<longleftrightarrow> (\<forall>msg. length (crypto_hash L msg) = 64)"

text \<open>
  A box is authenticated: \<open>box.open\<close> returns \<open>null\<close> when the box was sealed
  for another recipient or by another sender. A key pair is another party's when its
  public key is a different one. tweetnacl gives this up to the chance of forging a
  Poly1305 tag; the contract states it without that chance.
\<close>

definition box_auth_contract :: "nacl \<Rightarrow> bool" where
  "box_auth_contract L \<longleftrightarrow>
     (\<forall>msg nonce a b c.
        length a = 32 \<and> length b = 32 \<and> length c = 32 \<and> length nonce = 24 \<longrightarrow>
          (crypto_scalarmult_base L c \<noteq> crypto_scalarmult_base L b \<longrightarrow>
             crypto_box_open L (crypto_box L msg nonce (crypto_scalarmult_base L b) a) nonce
               (crypto_scalarmult_base L a) c = None)
          \<and> (crypto_scalarmult_base L c \<noteq> crypto_scalarmult_base L a \<longrightarrow>
               crypto_box_open L (crypto_box L msg nonce (crypto_scalarmult_base L b) a) nonce
                 (crypto_scalarmult_base L c) b = None))"

section \<open>What the package expects of bip39\<close>

text \<open>
  \<open>validateMnemonic\<close> is true exactly for the mnemonics that \<open>mnemonicToEntropy\<close>
  decodes, and the entropy comes back as the lower-case hexadecimal of its bytes.
\<close>

definition bip39_contract :: "bip39 \<Rightarrow> bool" where
  "bip39_contract B \<longleftrightarrow>
     (\<forall>m. validateMnemonic B m \<longleftrightarrow> (\<exists>h. mnemonicToEntropy B m = Inr h))
     \<and> (\<forall>m h. mnemonicToEntropy B m = Inr h \<longrightarrow> (\<exists>e. h = to_hex e))"

section \<open>Trimmed strings and words\<close>

definition trimmed :: "string \<Rightarrow> bool" where
  "trimmed s \<longleftrightarrow> s = [] \<or> (\<not> is_space (hd s) \<and> \<not> is_space (last s))"

definition wordlike :: "string \<Rightarrow> bool" where
  "wordlike w \<longleftrightarrow> w \<noteq> [] \<and> (\<forall>c\<in>set w. \<not> is_space c)"

section \<open>A small instance of the tweetnacl interface\<close>

text \<open>
  The theorems below hold for every record that meets the contracts. To run them on
  concrete input there is one such record here: a one-byte pad derived from key and
  nonce, a 16-byte checksum in front of the padded message, and a key agreement by
  bytewise multiplication. It protects nothing; it has the sizes and the algebra of the
  real primitives, and it rejects a box whose checksum does not match.
\<close>

definition toy_pad :: "bytes \<Rightarrow> bytes \<Rightarrow> byte" where
  "toy_pad nonce key = sum_list (key @ nonce)"

definition toy_tag :: "bytes \<Rightarrow> bytes \<Rightarrow> bytes \<Rightarrow> bytes" where
  "toy_tag msg nonce key = replicate 16 (sum_list (key @ nonce @ msg))"

definition toy_secretbox :: "bytes \<Rightarrow> bytes \<Rightarrow> bytes \<Rightarrow> bytes" where
  "toy_secretbox msg nonce key =
     toy_tag msg nonce key @ map (\<lambda>b. b XOR toy_pad nonce key) msg"

definition toy_secretbox_open :: "bytes \<Rightarrow> bytes \<Rightarrow> bytes \<Rightarrow> bytes option" where
  "toy_secretbox_open box nonce key =
     (if length box < 16 then None
      else (let msg = map (\<lambda>b. b XOR toy_pad nonce key) (drop 16 box)
            in if take 16 box = toy_tag msg nonce key then Some msg else None))"

definition toy_public :: "bytes \<Rightarrow> bytes" where
  "toy_public sk = map (\<lambda>b. 3 * b) sk"

definition toy_shared :: "bytes \<Rightarrow> bytes \<Rightarrow> bytes" where
  "toy_shared pk sk = map2 (*) pk sk"

definition toy_nacl :: nacl where
  "toy_nacl =
     \<lparr>crypto_secretbox = toy_secretbox,
      crypto_secretbox_open = toy_secretbox_open,
      crypto_box = (\<lambda>msg nonce pk sk. toy_secretbox msg nonce (toy_shared pk sk)),
      crypto_box_open = (\<lambda>box nonce pk sk. toy_secretbox_open box nonce (toy_shared pk sk)),
      crypto_hash = (\<lambda>msg. map (\<lambda>i. of_nat i + sum_list msg) [0..<64]),
      crypto_scalarmult_base = toy_public\<rparr>"






text \<open>A random source that counts, and one that stays at zero.\<close>

definition counting :: rng where
  "counting i = of_nat i"


section \<open>An instance of the bip39 interface\<close>

text \<open>
  The decoder of BIP-39 as the bip39 package runs it: bring the mnemonic into the
  normal form NFKD, split it at single spaces, refuse a word count that is no multiple
  of three, look every word up in the word list, read eleven bits per index, cut off
  the checksum bits, and compare them with the first bits of the SHA-256 of the
  entropy. The word list and the hash are arguments.

  \<open>String.prototype.normalize('NFKD')\<close> leaves U+0000 to U+009F as they are and
  decomposes 67 of the characters U+00A0 to U+00FF; the table is that of the Unicode
  character database. A decomposition may leave the range of 8-bit characters (an
  accented letter becomes the letter and a combining mark above U+0300), so the
  normal form is a list of code points. No two combining marks meet in the normal form
  of such a string, so nothing is reordered.
\<close>

definition nfkd_table :: "(int \<times> int list) list" where
  "nfkd_table =
     [(160, [32]), (168, [32, 776]), (170, [97]), (175, [32, 772]), (178, [50]),
      (179, [51]), (180, [32, 769]), (181, [956]), (184, [32, 807]), (185, [49]),
      (186, [111]), (188, [49, 8260, 52]), (189, [49, 8260, 50]), (190, [51, 8260, 52]),
      (192, [65, 768]), (193, [65, 769]), (194, [65, 770]), (195, [65, 771]),
      (196, [65, 776]), (197, [65, 778]), (199, [67, 807]), (200, [69, 768]),
      (201, [69, 769]), (202, [69, 770]), (203, [69, 776]), (204, [73, 768]),
      (205, [73, 769]), (206, [73, 770]), (207, [73, 776]), (209, [78, 771]),
      (210, [79, 768]), (211, [79, 769]), (212, [79, 770]), (213, [79, 771]),
      (214, [79, 776]), (217, [85, 768]), (218, [85, 769]), (219, [85, 770]),
      (220, [85, 776]), (221, [89, 769]), (224, [97, 768]), (225, [97, 769]),
      (226, [97, 770]), (227, [97, 771]), (228, [97, 776]), (229, [97, 778]),
      (231, [99, 807]), (232, [101, 768]), (233, [101, 769]), (234, [101, 770]),
      (235, [101, 776]), (236, [105, 768]), (237, [105, 769]), (238, [105, 770]),
      (239, [105, 776]), (241, [110, 771]), (242, [111, 768]), (243, [111, 769]),
      (244, [111, 770]), (245, [111, 771]), (246, [111, 776]), (249, [117, 768]),
      (250, [117, 769]), (251, [117, 770]), (252, [117, 776]), (253, [121, 769]),
      (255, [121, 776])]"

definition nfkd_char :: "char \<Rightarrow> int list" where
  "nfkd_char c =
     (if (of_char c :: int) < 160 then [of_char c]
      else (case map_of nfkd_table (of_char c) of None \<Rightarrow> [of_char c] | Some d \<Rightarrow> d))"

definition nfkd :: "string \<Rightarrow> int list" where
  "nfkd s = concat (map nfkd_char s)"

text \<open>\<open>s.split(' ')\<close>: the pieces between single spaces (U+0020).\<close>

fun split_space :: "int list \<Rightarrow> int list list" where
  "split_space [] = [[]]"
| "split_space (c # cs) =
     (if c = 32 then [] # split_space cs
      else (case split_space cs of w # ws \<Rightarrow> (c # w) # ws | [] \<Rightarrow> [[c]]))"

text \<open>\<open>wordlist.indexOf(word)\<close>, the words of the list read as code points.\<close>

definition word_index :: "string list \<Rightarrow> int list \<Rightarrow> nat option" where
  "word_index wordlist w = index_of w (map (map of_char) wordlist)"

definition word_bits :: "nat \<Rightarrow> bool list" where
  "word_bits i = map (\<lambda>j. bit i (10 - j)) [0..<11]"

definition byte_bits :: "byte \<Rightarrow> bool list" where
  "byte_bits b = map (\<lambda>j. bit b (7 - j)) [0..<8]"

definition bits_to_byte :: "bool list \<Rightarrow> byte" where
  "bits_to_byte bs = foldl (\<lambda>acc b. 2 * acc + (if b then 1 else 0)) 0 bs"

function chunk8 :: "bool list \<Rightarrow> bool list list" where
  "chunk8 bs = (if bs = [] then [] else take 8 bs # chunk8 (drop 8 bs))"
  by pat_completeness auto
termination
  by (relation "measure length") auto

declare chunk8.simps [simp del]

definition bip39_mnemonicToEntropy ::
  "string list \<Rightarrow> (bytes \<Rightarrow> bytes) \<Rightarrow> string \<Rightarrow> error + string" where
  "bip39_mnemonicToEntropy wordlist hash mnemonic =
     (let words = split_space (nfkd mnemonic)
      in if length words mod 3 \<noteq> 0 then Inl InvalidMnemonic
         else
           (case those (map (word_index wordlist) words) of
              None \<Rightarrow> Inl InvalidMnemonic
            | Some indices \<Rightarrow>
                (let bits = concat (map word_bits indices);
                     dividerIndex = (length bits div 33) * 32;
                     entropyBits = take dividerIndex bits;
                     checksumBits = drop dividerIndex bits;
                     entropyBytes = map bits_to_byte (chunk8 entropyBits)
                 in if length entropyBytes < 16 \<or> 32 < length entropyBytes
                         \<or> length entropyBytes mod 4 \<noteq> 0
                    then Inl InvalidMnemonic
                    else if take (length entropyBytes * 8 div 32)
                              (concat (map byte_bits (hash entropyBytes))) \<noteq> checksumBits
                    then Inl InvalidMnemonic
                    else Inr (to_hex entropyBytes))))"

definition bip39_of :: "string list \<Rightarrow> (bytes \<Rightarrow> bytes) \<Rightarrow> bip39" where
  "bip39_of wordlist hash =
     \<lparr>validateMnemonic =
        (\<lambda>m. case bip39_mnemonicToEntropy wordlist hash m of Inl e \<Rightarrow> False | Inr h \<Rightarrow> True),
      mnemonicToEntropy = bip39_mnemonicToEntropy wordlist hash\<rparr>"

subsection \<open>SHA-256\<close>

type_synonym u32 = "32 word"

definition sha256_K :: "u32 list" where
  "sha256_K =
     [0x428a2f98, 0x71374491, 0xb5c0fbcf, 0xe9b5dba5, 0x3956c25b, 0x59f111f1, 0x923f82a4,
      0xab1c5ed5, 0xd807aa98, 0x12835b01, 0x243185be, 0x550c7dc3, 0x72be5d74, 0x80deb1fe,
      0x9bdc06a7, 0xc19bf174, 0xe49b69c1, 0xefbe4786, 0x0fc19dc6, 0x240ca1cc, 0x2de92c6f,
      0x4a7484aa, 0x5cb0a9dc, 0x76f988da, 0x983e5152, 0xa831c66d, 0xb00327c8, 0xbf597fc7,
      0xc6e00bf3, 0xd5a79147, 0x06ca6351, 0x14292967, 0x27b70a85, 0x2e1b2138, 0x4d2c6dfc,
      0x53380d13, 0x650a7354, 0x766a0abb, 0x81c2c92e, 0x92722c85, 0xa2bfe8a1, 0xa81a664b,
      0xc24b8b70, 0xc76c51a3, 0xd192e819, 0xd6990624, 0xf40e3585, 0x106aa070, 0x19a4c116,
      0x1e376c08, 0x2748774c, 0x34b0bcb5, 0x391c0cb3, 0x4ed8aa4a, 0x5b9cca4f, 0x682e6ff3,
      0x748f82ee, 0x78a5636f, 0x84c87814, 0x8cc70208, 0x90befffa, 0xa4506ceb, 0xbef9a3f7,
      0xc67178f2]"

definition sha256_H0 :: "u32 list" where
  "sha256_H0 =
     [0x6a09e667, 0xbb67ae85, 0x3c6ef372, 0xa54ff53a, 0x510e527f, 0x9b05688c, 0x1f83d9ab,
      0x5be0cd19]"

definition rotr :: "nat \<Rightarrow> u32 \<Rightarrow> u32" where
  "rotr n x = drop_bit n x OR push_bit (32 - n) x"

definition ssig0 :: "u32 \<Rightarrow> u32" where
  "ssig0 x = rotr 7 x XOR rotr 18 x XOR drop_bit 3 x"

definition ssig1 :: "u32 \<Rightarrow> u32" where
  "ssig1 x = rotr 17 x XOR rotr 19 x XOR drop_bit 10 x"

definition bsig0 :: "u32 \<Rightarrow> u32" where
  "bsig0 x = rotr 2 x XOR rotr 13 x XOR rotr 22 x"

definition bsig1 :: "u32 \<Rightarrow> u32" where
  "bsig1 x = rotr 6 x XOR rotr 11 x XOR rotr 25 x"

definition ch :: "u32 \<Rightarrow> u32 \<Rightarrow> u32 \<Rightarrow> u32" where
  "ch x y z = (x AND y) XOR (NOT x AND z)"

definition maj :: "u32 \<Rightarrow> u32 \<Rightarrow> u32 \<Rightarrow> u32" where
  "maj x y z = (x AND y) XOR (x AND z) XOR (y AND z)"

text \<open>The message, one bit, zeros up to 56 modulo 64, and the bit length in 64 bits.\<close>

definition sha256_pad :: "bytes \<Rightarrow> bytes" where
  "sha256_pad msg =
     (let l = length msg; k = (64 - (l + 9) mod 64) mod 64
      in msg @ [0x80] @ replicate k 0
         @ map (\<lambda>i. ucast (drop_bit (56 - 8 * i) (of_nat (8 * l) :: 64 word))) [0..<8])"

fun be_words :: "bytes \<Rightarrow> u32 list" where
  "be_words (a # b # c # d # rest) =
     (push_bit 24 (ucast a) OR push_bit 16 (ucast b) OR push_bit 8 (ucast c) OR ucast d)
       # be_words rest"
| "be_words _ = []"

fun schedule :: "nat \<Rightarrow> u32 list \<Rightarrow> u32 list" where
  "schedule 0 w = w"
| "schedule (Suc n) w =
     (let t = length w
      in schedule n
           (w @ [ssig1 (w ! (t - 2)) + w ! (t - 7) + ssig0 (w ! (t - 15)) + w ! (t - 16)]))"

fun rounds :: "(u32 \<times> u32) list \<Rightarrow> u32 list \<Rightarrow> u32 list" where
  "rounds [] s = s"
| "rounds ((k, w) # kws) [a, b, c, d, e, f, g, h] =
     (let t1 = h + bsig1 e + ch e f g + k + w; t2 = bsig0 a + maj a b c
      in rounds kws [t1 + t2, a, b, c, d + t1, e, f, g])"
| "rounds _ s = s"

definition compress :: "u32 list \<Rightarrow> bytes \<Rightarrow> u32 list" where
  "compress h block = map2 (+) h (rounds (zip sha256_K (schedule 48 (be_words block))) h)"

function blocks :: "bytes \<Rightarrow> bytes list" where
  "blocks m = (if length m < 64 then [] else take 64 m # blocks (drop 64 m))"
  by pat_completeness auto
termination
  by (relation "measure length") auto

declare blocks.simps [simp del]

definition sha256 :: "bytes \<Rightarrow> bytes" where
  "sha256 msg =
     concat (map (\<lambda>x. [ucast (drop_bit 24 x), ucast (drop_bit 16 x), ucast (drop_bit 8 x),
                        ucast x])
       (foldl compress sha256_H0 (blocks (sha256_pad msg))))"

subsection \<open>The instance\<close>

text \<open>
  The English word list starts with these four words; the standard test phrase of the
  package's test suite uses no others, and a word has the same index in the full list.
\<close>

definition english_head :: "string list" where
  "english_head = [''abandon'', ''ability'', ''able'', ''about'']"

definition ref_bip39 :: bip39 where
  "ref_bip39 = bip39_of english_head sha256"

section \<open>Concrete inputs\<close>

text \<open>A symmetric key of 32 bytes in Base64, and three private keys.\<close>

definition key_A :: string where
  "key_A = encodeBase64 (replicate 32 7)"

definition priv_alice :: string where
  "priv_alice = encodeBase64 (replicate 32 5)"

definition priv_bob :: string where
  "priv_bob = encodeBase64 (replicate 32 9)"

definition priv_eve :: string where
  "priv_eve = encodeBase64 (replicate 32 11)"

text \<open>The public keys that the instance gives them.\<close>

definition pub_alice :: string where
  "pub_alice = encodeBase64 (toy_public (replicate 32 5))"

definition pub_bob :: string where
  "pub_bob = encodeBase64 (toy_public (replicate 32 9))"

definition pub_eve :: string where
  "pub_eve = encodeBase64 (toy_public (replicate 32 11))"




text \<open>
  The public key of \<open>priv_bob\<close> once more, in a form of Base64 that the encoder does
  not write: the two spare bits of the last group are not zero. \<open>decodeBase64\<close>
  reads the same 32 bytes from it.
\<close>

definition pub_bob_alt :: string where
  "pub_bob_alt = ''GxsbGxsbGxsbGxsbGxsbGxsbGxsbGxsbGxsbGxsbGxt=''"

text \<open>
  Two members of a gallery, the first with that form of its key, and a third whose
  public key is no Base64.
\<close>

definition members :: "recipient list" where
  "members = [\<lparr>userId = ''user1'', publicKey = pub_bob_alt\<rparr>,
              \<lparr>userId = ''user2'', publicKey = pub_eve\<rparr>]"

definition intruder :: recipient where
  "intruder = \<lparr>userId = ''user3'', publicKey = ''not base64!''\<rparr>"

text \<open>
  Three sequences for \<open>Math.random\<close>: one that walks through the sixteenths from 0 to
  15/16, one that returns 0 at every call, and one that returns the binary64 number
  next below 1/12 at every call.
\<close>

definition sixteenths :: "nat \<Rightarrow> double01" where
  "sixteenths i = (int (i mod 16), 4)"

definition stuck :: "nat \<Rightarrow> double01" where
  "stuck i = (0, 0)"

definition below_twelfth :: "nat \<Rightarrow> double01" where
  "below_twelfth i = (6004799503160661, 56)"

text \<open>
  The test phrase of the package's unit tests, the same words typed with capitals and
  stray blanks, and the same words with two blanks after the first.
\<close>

definition test_phrase :: string where
  "test_phrase =
     ''abandon abandon abandon abandon abandon abandon abandon abandon abandon abandon abandon about''"

definition typed_phrase :: string where
  "typed_phrase =
     ''  Abandon ABANDON abandon abandon  abandon abandon abandon abandon abandon abandon abandon About ''"

definition spaced_phrase :: string where
  "spaced_phrase =
     ''abandon  abandon abandon abandon abandon abandon abandon abandon abandon abandon abandon about''"

text \<open>The test phrase with a no-break space, U+00A0, behind each of its first eleven words.\<close>

definition nbsp_phrase :: string where
  "nbsp_phrase = concat (map (\<lambda>w. w @ [CHR 0xA0]) (replicate 11 ''abandon'')) @ ''about''"

section \<open>Facts about the encodings\<close>

lemma index_of_nth: "distinct xs \<Longrightarrow> n < length xs \<Longrightarrow> index_of (xs ! n) xs = Some n"
proof (induction xs arbitrary: n)
  case Nil
  then show ?case by simp
next
  case (Cons y ys)
  show ?case
  proof (cases n)
    case 0
    then show ?thesis by simp
  next
    case (Suc m)
    with Cons.prems have "ys ! m \<noteq> y" by auto
    with Suc Cons show ?thesis by auto
  qed
qed

lemma distinct_b64_alphabet: "distinct b64_alphabet"
  by (simp add: b64_alphabet_def)

lemma length_b64_alphabet: "length b64_alphabet = 64"
  by (simp add: b64_alphabet_def)

lemma b64_value_char: "n < 64 \<Longrightarrow> b64_value (b64_char n) = Some n"
  by (simp add: b64_value_def b64_char_def index_of_nth distinct_b64_alphabet
      length_b64_alphabet)

lemma b64_value_pad: "b64_value pad_char = None"
  by (simp add: b64_value_def pad_char_def b64_alphabet_def)

lemma byte_lt: "unat (a :: byte) < 256"
  using unsigned_less [of a, where 'a = nat] by simp

lemma sextet_lt:
  "sextet0 a < 64" "sextet1 a b < 64" "sextet2 b c < 64" "sextet3 c < 64"
  using byte_lt [of a] byte_lt [of b] byte_lt [of c]
  by (simp_all add: sextet0_def sextet1_def sextet2_def sextet3_def)

lemma octet0_sextet: "octet0 (sextet0 a) (sextet1 a b) = a"
  using byte_lt [of b] by (simp add: octet0_def sextet0_def sextet1_def)

lemma octet1_sextet: "octet1 (sextet1 a b) (sextet2 b c) = b"
  using byte_lt [of b] byte_lt [of c] by (simp add: octet1_def sextet1_def sextet2_def)

lemma octet2_sextet: "octet2 (sextet2 b c) (sextet3 c) = c"
  using byte_lt [of c] by (simp add: octet2_def sextet2_def sextet3_def)

lemmas b64_simps =
  b64_value_char sextet_lt octet0_sextet octet1_sextet octet2_sextet b64_value_pad

text \<open>Decoding undoes encoding, so two byte arrays with one encoding are equal.\<close>

lemma decodeBase64_encodeBase64: "decodeBase64 (encodeBase64 bs) = Inr bs"
proof (induction bs rule: encodeBase64.induct)
  case 1
  show ?case by simp
next
  case (2 a)
  show ?case by (simp add: decode_last_def b64_simps)
next
  case (3 a b)
  show ?case by (simp add: decode_last_def b64_simps)
next
  case (4 a b c rest)
  show ?case
  proof (cases rest)
    case Nil
    then show ?thesis by (simp add: decode_last_def b64_simps)
  next
    case (Cons r rs)
    then obtain x y where "encodeBase64 rest = x # y"
      by (cases rest rule: encodeBase64.cases) auto
    with 4 show ?thesis by (simp add: b64_simps)
  qed
qed

lemma encodeBase64_inject: "encodeBase64 xs = encodeBase64 ys \<Longrightarrow> xs = ys"
  by (metis decodeBase64_encodeBase64 sum.inject(2))

lemma decodeBase64_invalid: "decodeBase64 ''not base64!'' = Inl InvalidEncoding"
  by (simp add: decode_last_def b64_value_def b64_alphabet_def)

section \<open>Facts about payloads and the instance\<close>

lemmas consts_defs =
  VERSION_BYTES_def NONCE_BYTES_def AUTH_TAG_BYTES_def SECRET_KEY_def PUBLIC_KEY_def
  PRIVATE_KEY_def CURRENT_PAYLOAD_VERSION_def

lemma randomBytes_length: "length (fst (randomBytes n g)) = n"
  by (simp add: randomBytes_def)

lemma assemble_payload_eq:
  "length nonce = 24 \<Longrightarrow> assemble_payload nonce ct = Inr (1 # nonce @ ct)"
  by (simp add: assemble_payload_def typed_set_def consts_defs Let_def
      replicate_add list_update_append1 list_update_code(2) upd_conv_take_nth_drop)

lemma encrypt_value:
  assumes "decodeBase64 k = Inr kb" "length kb = 32"
  shows "encrypt L d k g =
           Inr (encodeBase64 (1 # fst (randomBytes 24 g)
                  @ crypto_secretbox L d (fst (randomBytes 24 g)) kb),
                snd (randomBytes 24 g))"
  using assms
  by (simp add: encrypt_def consts_defs nacl_secretbox_def randomBytes_length
      assemble_payload_eq case_prod_beta)

lemma decrypt_payload:
  assumes "decodeBase64 k = Inr kb" "length kb = 32" "length nonce = 24" "16 \<le> length ct"
  shows "decrypt L (encodeBase64 (1 # nonce @ ct)) k =
           (case crypto_secretbox_open L ct nonce kb of
              None \<Rightarrow> Inl DecryptionFailed | Some d \<Rightarrow> Inr d)"
  using assms
  by (simp add: decrypt_def decodeBase64_encodeBase64 consts_defs decryptV1_def slice_def
      slice_from_def nacl_secretbox_open_def split: option.splits)

lemma toy_secretbox_roundtrip:
  "toy_secretbox_open (toy_secretbox msg nonce key) nonce key = Some msg"
proof -
  have "map ((\<lambda>b. b XOR toy_pad nonce key) \<circ> (\<lambda>b. b XOR toy_pad nonce key)) msg = msg"
    by (simp add: comp_def xor.assoc)
  then show ?thesis
    by (simp add: toy_secretbox_open_def toy_secretbox_def toy_tag_def Let_def)
qed

lemma toy_secretbox_length: "length (toy_secretbox msg nonce key) = length msg + 16"
  by (simp add: toy_secretbox_def toy_tag_def)

lemma toy_secretbox_contract: "secretbox_contract toy_nacl"
  by (simp add: secretbox_contract_def toy_nacl_def toy_secretbox_roundtrip
      toy_secretbox_length)

lemma toy_shared_commute:
  "length a = length b \<Longrightarrow> toy_shared (toy_public b) a = toy_shared (toy_public a) b"
  by (induction a b rule: list_induct2)
     (simp_all add: toy_shared_def toy_public_def mult.commute mult.left_commute)

lemma toy_box_contract: "box_contract toy_nacl"
proof -
  have "toy_secretbox_open (toy_secretbox msg nonce (toy_shared (toy_public b) a)) nonce
          (toy_shared (toy_public a) b) = Some msg"
    if "length a = 32" "length b = 32" for msg nonce a b
    using that toy_shared_commute [of a b] by (simp add: toy_secretbox_roundtrip)
  then show ?thesis
    by (simp add: box_contract_def toy_nacl_def toy_secretbox_length)
       (simp add: toy_public_def)
qed

lemma key_A_decodes: "decodeBase64 key_A = Inr (replicate 32 7)"
  by (simp add: key_A_def decodeBase64_encodeBase64)

lemma counting_nonces_differ:
  "fst (randomBytes NONCE_BYTES counting)
     \<noteq> fst (randomBytes NONCE_BYTES (snd (randomBytes NONCE_BYTES counting)))"
proof -
  have "fst (randomBytes NONCE_BYTES counting) ! 0 = 0"
    by (simp add: randomBytes_def NONCE_BYTES_def counting_def)
  moreover
  have "fst (randomBytes NONCE_BYTES (snd (randomBytes NONCE_BYTES counting))) ! 0 = 24"
    by (simp add: randomBytes_def NONCE_BYTES_def counting_def)
  ultimately show ?thesis by auto
qed

lemma toy_rejects_ones:
  "crypto_secretbox_open toy_nacl (replicate 16 1) (replicate 24 0) (replicate 32 7) = None"
  by code_simp


lemma encryptKeyForRecipient_value:
  assumes "decodeBase64 s = Inr sb" "length sb = 32"
    and "decodeBase64 pk = Inr pkb" "length pkb = 32"
    and "decodeBase64 sk = Inr skb" "length skb = 32"
  shows "encryptKeyForRecipient L s pk sk g =
           Inr (encodeBase64 (1 # fst (randomBytes 24 g)
                  @ crypto_box L sb (fst (randomBytes 24 g)) pkb skb),
                snd (randomBytes 24 g))"
  using assms
  by (simp add: encryptKeyForRecipient_def consts_defs nacl_box_def randomBytes_length
      assemble_payload_eq case_prod_beta)

lemma decryptKeyFromSender_value:
  assumes "decodeBase64 p = Inr pb" "decodeBase64 pk = Inr pkb" "length pkb = 32"
    and "decodeBase64 sk = Inr skb" "length skb = 32"
    and "1 + 24 + 32 + 16 \<le> length pb" "hd pb \<le> 1"
  shows "decryptKeyFromSender L p pk sk =
           (case crypto_box_open L (payload_ciphertext pb) (payload_nonce pb) pkb skb of
              None \<Rightarrow> Inl DecryptionFailed
            | Some d \<Rightarrow> if length d \<noteq> 32 then Inl CorruptKey else Inr (encodeBase64 d))"
proof (cases pb)
  case Nil
  with assms show ?thesis by simp
next
  case (Cons v rest)
  then have "length (payload_nonce pb) = 24"
    using assms(6) by (simp add: payload_nonce_def slice_def consts_defs)
  with assms Cons show ?thesis
    by (simp add: decryptKeyFromSender_def consts_defs nacl_box_open_def
        payload_nonce_def payload_ciphertext_def Let_def not_less
        split: option.splits)
qed

lemma payload_parts:
  "length nonce = 24 \<Longrightarrow> payload_nonce (v # nonce @ ct) = nonce"
  "length nonce = 24 \<Longrightarrow> payload_ciphertext (v # nonce @ ct) = ct"
  by (simp_all add: payload_nonce_def payload_ciphertext_def slice_def slice_from_def consts_defs)

lemma toy_decodes:
  "decodeBase64 priv_alice = Inr (replicate 32 5)"
  "decodeBase64 priv_bob = Inr (replicate 32 9)"
  "decodeBase64 priv_eve = Inr (replicate 32 11)"
  "decodeBase64 pub_alice = Inr (toy_public (replicate 32 5))"
  "decodeBase64 pub_bob = Inr (toy_public (replicate 32 9))"
  "decodeBase64 pub_eve = Inr (toy_public (replicate 32 11))"
  by (simp_all add: priv_alice_def priv_bob_def priv_eve_def
      pub_alice_def pub_bob_def pub_eve_def decodeBase64_encodeBase64)

lemma toy_public_length: "length (toy_public sk) = length sk"
  by (simp add: toy_public_def)

lemma toy_long_box:
  "crypto_box_open toy_nacl
     (crypto_box toy_nacl (replicate 40 1) (replicate 24 0) (toy_public (replicate 32 9)) (replicate 32 5))
     (replicate 24 0) (toy_public (replicate 32 5)) (replicate 32 9) = Some (replicate 40 1)"
  using toy_box_contract unfolding box_contract_def toy_nacl_def by simp

lemma encryptKeyForRecipient_error_indep:
  assumes "encryptKeyForRecipient L k pk sk g = Inl e"
  shows "encryptKeyForRecipient L k pk sk g' = Inl e"
  using assms
  by (auto simp: encryptKeyForRecipient_def consts_defs nacl_box_def randomBytes_length
      assemble_payload_eq case_prod_beta split: sum.splits if_splits)

lemma members_success:
  "encryptGalleryKeyForMembers L gk rs priv g = Inr (grants, g') \<Longrightarrow>
     map grantUserId grants = map userId rs
     \<and> (\<forall>i<length rs. \<exists>gi gi'. encryptKeyForRecipient L gk (publicKey (rs ! i)) priv gi
            = Inr (encryptedGalleryKey (grants ! i), gi'))"
proof (induction rs arbitrary: g grants)
  case Nil
  then show ?case by simp
next
  case (Cons r rs)
  from Cons.prems obtain p g1 gs where
    e: "encryptKeyForRecipient L gk (publicKey r) priv g = Inr (p, g1)"
    and rest: "encryptGalleryKeyForMembers L gk rs priv g1 = Inr (gs, g')"
    and grants: "grants = \<lparr>grantUserId = userId r, encryptedGalleryKey = p\<rparr> # gs"
    by (auto split: sum.splits prod.splits)
  from Cons.IH [OF rest]
  have ih: "map grantUserId gs = map userId rs"
    "\<forall>i<length rs. \<exists>gi gi'. encryptKeyForRecipient L gk (publicKey (rs ! i)) priv gi
            = Inr (encryptedGalleryKey (gs ! i), gi')"
    by simp_all
  show ?case
  proof (intro conjI allI impI)
    show "map grantUserId grants = map userId (r # rs)"
      using ih(1) grants by simp
  next
    fix i assume "i < length (r # rs)"
    then show "\<exists>gi gi'. encryptKeyForRecipient L gk (publicKey ((r # rs) ! i)) priv gi
            = Inr (encryptedGalleryKey (grants ! i), gi')"
      using e ih(2) grants by (cases i) auto
  qed
qed

lemma members_failure:
  "r \<in> set rs \<Longrightarrow> encryptKeyForRecipient L gk (publicKey r) priv g0 = Inl e \<Longrightarrow>
     \<exists>e'. encryptGalleryKeyForMembers L gk rs priv g = Inl e'"
proof (induction rs arbitrary: g)
  case Nil
  then show ?case by simp
next
  case (Cons x xs)
  show ?case
  proof (cases "encryptKeyForRecipient L gk (publicKey x) priv g")
    case (Inl e1)
    then show ?thesis by simp
  next
    case (Inr pg)
    then have "x \<noteq> r"
      using Cons.prems(2) encryptKeyForRecipient_error_indep [of L gk "publicKey r" priv g0 e g]
      by auto
    with Cons.prems have "r \<in> set xs" by simp
    obtain p g1 where pg: "pg = (p, g1)" by (cases pg)
    from Cons.IH [OF \<open>r \<in> set xs\<close> Cons.prems(2), of g1]
    obtain e' where "encryptGalleryKeyForMembers L gk xs priv g1 = Inl e'" by blast
    with Inr pg show ?thesis by simp
  qed
qed

lemma members_all_succeed:
  "(\<forall>r\<in>set rs. \<forall>g. \<exists>p g'. encryptKeyForRecipient L gk (publicKey r) priv g = Inr (p, g')) \<Longrightarrow>
     \<exists>grants g'. encryptGalleryKeyForMembers L gk rs priv g = Inr (grants, g')"
proof (induction rs arbitrary: g)
  case Nil
  then show ?case by simp
next
  case (Cons x xs)
  then obtain p g1 where e: "encryptKeyForRecipient L gk (publicKey x) priv g = Inr (p, g1)"
    by (meson list.set_intros(1))
  from Cons obtain gs g2 where "encryptGalleryKeyForMembers L gk xs priv g1 = Inr (gs, g2)"
    by (meson list.set_intros(2))
  with e show ?case by simp
qed

lemma pub_bob_alt_decodes:
  "decodeBase64 pub_bob_alt = Inr (toy_public (replicate 32 9))"
  "pub_bob_alt \<noteq> pub_bob"
  by code_simp+

lemma encryptKeyForRecipient_Inr:
  assumes "encryptKeyForRecipient L s pk sk g = Inr (p, g')"
  obtains sb pkb skb where "decodeBase64 s = Inr sb" "length sb = 32"
    "decodeBase64 pk = Inr pkb" "length pkb = 32"
    "decodeBase64 sk = Inr skb" "length skb = 32"
    "p = encodeBase64 (1 # fst (randomBytes 24 g)
           @ crypto_box L sb (fst (randomBytes 24 g)) pkb skb)"
proof -
  from assms obtain sb pkb skb where d: "decodeBase64 s = Inr sb" "length sb = 32"
    "decodeBase64 pk = Inr pkb" "length pkb = 32"
    "decodeBase64 sk = Inr skb" "length skb = 32"
    by (auto simp: encryptKeyForRecipient_def consts_defs split: sum.splits if_splits)
  from encryptKeyForRecipient_value [OF d, of L g] assms
  have "p = encodeBase64 (1 # fst (randomBytes 24 g)
           @ crypto_box L sb (fst (randomBytes 24 g)) pkb skb)"
    by simp
  with d show ?thesis by (rule that)
qed

lemma sealed_payload:
  assumes "box_contract L" "length a = 32" "length b = 32" "length sb = 32"
  shows "1 + 24 + 32 + 16
           \<le> length (1 # fst (randomBytes 24 g)
                @ crypto_box L sb (fst (randomBytes 24 g)) (crypto_scalarmult_base L b) a)"
  using assms randomBytes_length [of 24 g] unfolding box_contract_def by simp

lemma exchange_opens_bytes:
  assumes "box_contract L"
    and a: "decodeBase64 privA = Inr a" "decodeBase64 pubA = Inr (crypto_scalarmult_base L a)"
    and b: "decodeBase64 privB = Inr b" "length b = 32"
      "decodeBase64 pubB = Inr (crypto_scalarmult_base L b)"
    and s: "decodeBase64 s = Inr sb"
    and enc: "encryptKeyForRecipient L s pubB privA g = Inr (p, g')"
  shows "decryptKeyFromSender L p pubA privB = Inr (encodeBase64 sb)"
proof -
  let ?pa = "crypto_scalarmult_base L a" and ?pb = "crypto_scalarmult_base L b"
  let ?nonce = "fst (randomBytes 24 g)"
  let ?ct = "crypto_box L sb ?nonce ?pb a"
  let ?bytes = "1 # ?nonce @ ?ct"
  from enc a(1) b(3) s have la: "length a = 32" and ls: "length sb = 32"
    and p: "p = encodeBase64 ?bytes"
    by (auto elim!: encryptKeyForRecipient_Inr)
  have n: "length ?nonce = 24" by (rule randomBytes_length)
  from assms(1) la have lpa: "length ?pa = 32"
    unfolding box_contract_def by blast
  from assms(1) la b(2) n
  have op: "crypto_box_open L ?ct ?nonce ?pa b = Some sb"
    unfolding box_contract_def by blast
  have big: "1 + 24 + 32 + 16 \<le> length ?bytes" "hd ?bytes \<le> 1"
    using sealed_payload [OF assms(1) la b(2) ls, of g] by simp_all
  show ?thesis
    using decryptKeyFromSender_value [OF decodeBase64_encodeBase64 a(2) lpa b(1,2) big, of L]
      op ls n
    by (simp add: payload_parts p)
qed

lemma members_fails_somewhere:
  "encryptGalleryKeyForMembers L gk rs priv g = Inl e \<Longrightarrow>
     \<exists>r\<in>set rs. \<exists>g0. encryptKeyForRecipient L gk (publicKey r) priv g0 = Inl e"
proof (induction rs arbitrary: g)
  case Nil
  then show ?case by simp
next
  case (Cons x xs)
  show ?case
  proof (cases "encryptKeyForRecipient L gk (publicKey x) priv g")
    case (Inl e1)
    with Cons.prems have "e1 = e" by simp
    with Inl show ?thesis by auto
  next
    case (Inr pg)
    obtain p g1 where pg: "pg = (p, g1)" by (cases pg)
    with Inr Cons.prems have "encryptGalleryKeyForMembers L gk xs priv g1 = Inl e"
      by (auto split: sum.splits)
    from Cons.IH [OF this] show ?thesis by auto
  qed
qed









lemma toy_box_no_authentication: "\<not> box_auth_contract toy_nacl"
proof
  let ?a = "replicate 32 128 :: bytes" and ?b = "replicate 32 9 :: bytes"
  let ?c = "replicate 32 11 :: bytes" and ?nonce = "replicate 24 0 :: bytes"
  assume "box_auth_contract toy_nacl"
  then have "crypto_scalarmult_base toy_nacl ?c \<noteq> crypto_scalarmult_base toy_nacl ?b \<longrightarrow>
      crypto_box_open toy_nacl
        (crypto_box toy_nacl [] ?nonce (crypto_scalarmult_base toy_nacl ?b) ?a) ?nonce
        (crypto_scalarmult_base toy_nacl ?a) ?c = None"
    unfolding box_auth_contract_def by simp
  moreover
  have "crypto_scalarmult_base toy_nacl ?c \<noteq> crypto_scalarmult_base toy_nacl ?b"
    by code_simp
  moreover
  have "crypto_box_open toy_nacl
        (crypto_box toy_nacl [] ?nonce (crypto_scalarmult_base toy_nacl ?b) ?a) ?nonce
        (crypto_scalarmult_base toy_nacl ?a) ?c = Some []"
    by code_simp
  ultimately show False by simp
qed



lemma members_encrypt:
  "\<forall>r\<in>set members. \<forall>g0. \<exists>p g1.
     encryptKeyForRecipient toy_nacl key_A (publicKey r) priv_alice g0 = Inr (p, g1)"
proof -
  have k: "length (replicate 32 (7 :: byte)) = 32" by simp
  have "\<exists>p g1. encryptKeyForRecipient toy_nacl key_A pub_bob_alt priv_alice g0 = Inr (p, g1)"
    for g0
    using encryptKeyForRecipient_value
      [OF key_A_decodes k pub_bob_alt_decodes(1) _ toy_decodes(1), of toy_nacl g0]
    by (simp add: toy_public_length)
  moreover
  have "\<exists>p g1. encryptKeyForRecipient toy_nacl key_A pub_eve priv_alice g0 = Inr (p, g1)"
    for g0
    using encryptKeyForRecipient_value
      [OF key_A_decodes k toy_decodes(6) _ toy_decodes(1), of toy_nacl g0]
    by (simp add: toy_public_length)
  ultimately show ?thesis by (simp add: members_def)
qed

lemma intruder_fails:
  "encryptKeyForRecipient toy_nacl key_A (publicKey intruder) priv_alice g = Inl InvalidEncoding"
  by (simp add: encryptKeyForRecipient_def key_A_decodes intruder_def decodeBase64_invalid
      del: decodeBase64.simps)

section \<open>Facts about trimming, splitting and joining\<close>

lemma is_space_lower: "is_space (lower_char c) = is_space c"
proof (cases "is_upper c")
  case False
  then show ?thesis by (simp add: lower_char_def)
next
  case True
  then have "(of_char c :: nat) + 32 < 256" "(of_char c :: nat) + 32 \<notin> {9, 10, 11, 12, 13, 32, 160}"
    "(of_char c :: nat) \<notin> {9, 10, 11, 12, 13, 32, 160}"
    by (auto simp: is_upper_def Let_def)
  with True show ?thesis
    by (simp add: lower_char_def is_space_def)
qed

lemma not_upper_lower: "\<not> is_upper (lower_char c)"
proof (cases "is_upper c")
  case False
  then show ?thesis by (simp add: lower_char_def)
next
  case True
  then have "(of_char c :: nat) + 32 < 256" by (auto simp: is_upper_def Let_def)
  with True show ?thesis
    by (auto simp: lower_char_def is_upper_def Let_def)
qed

lemma lower_char_idem: "lower_char (lower_char c) = lower_char c"
  using not_upper_lower [of c] by (simp add: lower_char_def [of "lower_char c"])

lemma space_not_upper: "is_space c \<Longrightarrow> lower_char c = c"
  by (auto simp: is_space_def lower_char_def is_upper_def Let_def)

lemma last_dropWhile: "dropWhile P xs \<noteq> [] \<Longrightarrow> last (dropWhile P xs) = last xs"
  by (induction xs) (auto split: if_splits)

lemma trimmed_trim: "trimmed (trim s)"
proof -
  let ?u = "dropWhile is_space s"
  let ?v = "dropWhile is_space (rev ?u)"
  show ?thesis
  proof (cases "?v = []")
    case True
    then show ?thesis by (simp add: trimmed_def trim_def)
  next
    case False
    have u: "?u \<noteq> []"
    proof
      assume "?u = []"
      then have "?v = dropWhile is_space (rev [])" by (simp only:)
      with False show False by simp
    qed
    have "\<not> is_space (hd ?v)" using False by (rule hd_dropWhile)
    moreover have "last ?v = last (rev ?u)" using False by (rule last_dropWhile)
    then have "last ?v = hd ?u" using u by (simp add: last_rev)
    then have "\<not> is_space (last ?v)" using hd_dropWhile [OF u] by simp
    ultimately show ?thesis
      using False by (simp add: trimmed_def trim_def hd_rev last_rev)
  qed
qed

lemma trim_trimmed: "trimmed s \<Longrightarrow> trim s = s"
proof (cases "s = []")
  case True
  then show ?thesis by (simp add: trim_def)
next
  case False
  assume "trimmed s"
  with False have h: "\<not> is_space (hd s)" "\<not> is_space (last s)" by (simp_all add: trimmed_def)
  from False h(1) have "dropWhile is_space s = s" by (cases s) simp_all
  moreover from False h(2) have "dropWhile is_space (rev s) = rev s"
    by (cases "rev s") (simp_all add: last_rev [symmetric] hd_rev)
  ultimately show ?thesis by (simp add: trim_def)
qed

lemma trimmed_toLowerCase: "trimmed s \<Longrightarrow> trimmed (toLowerCase s)"
  by (auto simp: trimmed_def toLowerCase_def hd_map last_map is_space_lower)


lemma split_ws_plain:
  assumes "\<forall>c\<in>set s. \<not> is_space c"
  shows "split_ws s = [s]"
proof -
  have "dropWhile (\<lambda>c. \<not> is_space c) s = []" using assms by simp
  then show ?thesis by (subst split_ws.simps) (simp only: list.case)
qed

lemma split_ws_step:
  "dropWhile (\<lambda>c. \<not> is_space c) s = r # rs \<Longrightarrow>
     split_ws s = takeWhile (\<lambda>c. \<not> is_space c) s # split_ws (dropWhile is_space rs)"
  by (subst split_ws.simps) (simp only: list.case)

lemma split_ws_Nil: "split_ws [] = [[]]"
  by (simp add: split_ws_plain)

lemma split_ws_set: "set (concat (split_ws s)) \<subseteq> set s"
proof (induction s rule: split_ws.induct)
  case (1 s)
  show ?case
  proof (cases "dropWhile (\<lambda>c. \<not> is_space c) s")
    case Nil
    then have "\<forall>c\<in>set s. \<not> is_space c" by (simp add: dropWhile_eq_Nil_conv)
    then show ?thesis by (simp add: split_ws_plain)
  next
    case (Cons r rs)
    have a: "set (takeWhile (\<lambda>c. \<not> is_space c) s) \<subseteq> set s"
      by (auto dest: set_takeWhileD)
    have "set (dropWhile is_space rs) \<subseteq> set rs" by (auto dest: set_dropWhileD)
    also have "set rs \<subseteq> set (r # rs)" by auto
    also have "set (r # rs) \<subseteq> set s"
      using Cons set_dropWhileD [of _ "\<lambda>c. \<not> is_space c" s] by (metis subsetI)
    finally have b: "set (dropWhile is_space rs) \<subseteq> set s" .
    from 1 [OF Cons] b have "set (concat (split_ws (dropWhile is_space rs))) \<subseteq> set s" by blast
    with a show ?thesis by (simp add: split_ws_step [OF Cons])
  qed
qed

lemma split_ws_trimmed:
  "s \<noteq> [] \<Longrightarrow> trimmed s \<Longrightarrow> split_ws s \<noteq> [] \<and> (\<forall>w\<in>set (split_ws s). wordlike w)"
proof (induction s rule: split_ws.induct)
  case (1 s)
  let ?ns = "\<lambda>c. \<not> is_space c"
  from 1(2,3) have hd: "\<not> is_space (hd s)" and last: "\<not> is_space (last s)"
    by (simp_all add: trimmed_def)
  show ?case
  proof (cases "dropWhile ?ns s")
    case Nil
    then have "\<forall>c\<in>set s. \<not> is_space c" by (simp add: dropWhile_eq_Nil_conv)
    with 1(2) show ?thesis by (simp add: split_ws_plain wordlike_def)
  next
    case (Cons r rs)
    let ?rest = "dropWhile is_space rs"
    have r: "is_space r" using hd_dropWhile [of ?ns s] Cons by simp
    have tw: "wordlike (takeWhile ?ns s)"
    proof -
      have "takeWhile ?ns s \<noteq> []" using 1(2) hd by (cases s) simp_all
      moreover have "\<forall>c\<in>set (takeWhile ?ns s). \<not> is_space c"
        by (auto dest: set_takeWhileD)
      ultimately show ?thesis by (simp add: wordlike_def)
    qed
    have l1: "last (r # rs) = last s" using last_dropWhile [of ?ns s] Cons by simp
    have rs: "rs \<noteq> []" using l1 last r by auto
    then have l2: "last rs = last s" using l1 by simp
    have rest: "?rest \<noteq> []"
    proof
      assume "?rest = []"
      then have "\<forall>c\<in>set rs. is_space c" by (simp add: dropWhile_eq_Nil_conv)
      with rs have "is_space (last rs)" by simp
      with l2 last show False by simp
    qed
    have "last ?rest = last rs" using rest by (rule last_dropWhile)
    with rest l2 last hd_dropWhile [OF rest] have "trimmed ?rest"
      by (simp add: trimmed_def)
    from 1(1) [OF Cons rest this] tw show ?thesis
      by (simp add: split_ws_step [OF Cons])
  qed
qed

lemma space_is_space: "is_space CHR '' ''"
  by (simp add: is_space_def)

lemma join_space_words:
  "ws \<noteq> [] \<Longrightarrow> \<forall>w\<in>set ws. wordlike w \<Longrightarrow>
     split_ws (join_space ws) = ws \<and> trimmed (join_space ws) \<and> join_space ws \<noteq> []"
proof (induction ws rule: join_space.induct)
  case 1
  then show ?case by simp
next
  case (2 w)
  then show ?case
    by (simp add: split_ws_plain wordlike_def trimmed_def)
next
  case (3 w v vs)
  let ?ns = "\<lambda>c. \<not> is_space c"
  let ?rest = "join_space (v # vs)"
  from 3 have ih: "split_ws ?rest = v # vs" "trimmed ?rest" "?rest \<noteq> []" by simp_all
  from 3(3) have w: "w \<noteq> []" "\<forall>c\<in>set w. \<not> is_space c" by (simp_all add: wordlike_def)
  have d: "dropWhile ?ns (w @ CHR '' '' # ?rest) = CHR '' '' # ?rest"
    using w(2) space_is_space by (simp add: dropWhile_append2)
  have t: "takeWhile ?ns (w @ CHR '' '' # ?rest) = w"
    using w(2) space_is_space by (simp add: takeWhile_append2)
  have "\<not> is_space (hd ?rest)" using ih(2,3) by (simp add: trimmed_def)
  with ih(3) have r: "dropWhile is_space ?rest = ?rest" by (cases ?rest) simp_all
  have "split_ws (w @ CHR '' '' # ?rest) = w # v # vs"
    using split_ws_step [OF d] t r ih(1) by simp
  moreover have "trimmed (w @ CHR '' '' # ?rest)"
    using w ih(2,3) by (simp add: trimmed_def)
  ultimately show ?case by simp
qed

lemma join_space_set: "set (join_space ws) \<subseteq> set (concat ws) \<union> {CHR '' ''}"
  by (induction ws rule: join_space.induct) auto

lemma normalize_facts:
  "toLowerCase (trim (normalizeSeedPhrase p)) = normalizeSeedPhrase p"
  "split_ws (normalizeSeedPhrase p) = split_ws (toLowerCase (trim p))"
proof -
  let ?t = "toLowerCase (trim p)"
  let ?N = "normalizeSeedPhrase p"
  have tt: "trimmed ?t" by (simp add: trimmed_trim trimmed_toLowerCase)
  have "toLowerCase (trim ?N) = ?N \<and> split_ws ?N = split_ws ?t"
  proof (cases "?t = []")
    case True
    have N: "?N = []"
      unfolding normalizeSeedPhrase_def True by (simp add: split_ws_Nil)
    have "toLowerCase (trim []) = []" by (simp add: trim_def toLowerCase_def)
    then show ?thesis
      unfolding N True by (simp add: split_ws_Nil)
  next
    case False
    note ws = split_ws_trimmed [OF False tt]
    from ws have j: "split_ws ?N = split_ws ?t" "trimmed ?N" "?N \<noteq> []"
      using join_space_words [of "split_ws ?t"] by (simp_all add: normalizeSeedPhrase_def)
    have "set ?N \<subseteq> set ?t \<union> {CHR '' ''}"
      using join_space_set [of "split_ws ?t"] split_ws_set [of ?t]
      by (auto simp: normalizeSeedPhrase_def)
    moreover have "\<forall>c\<in>set ?t. lower_char c = c"
      by (auto simp: toLowerCase_def lower_char_idem)
    moreover have "lower_char CHR '' '' = CHR '' ''"
      using space_is_space by (rule space_not_upper)
    ultimately have "\<forall>c\<in>set ?N. lower_char c = c" by auto
    then have "toLowerCase ?N = ?N" by (simp add: toLowerCase_def map_idI)
    with j show ?thesis by (simp add: trim_trimmed)
  qed
  then show "toLowerCase (trim ?N) = ?N" "split_ws ?N = split_ws ?t"
    by simp_all
qed

lemma normalizeSeedPhrase_idem:
  "normalizeSeedPhrase (normalizeSeedPhrase p) = normalizeSeedPhrase p"
  using normalize_facts(1,2) [of p]
  by (simp add: normalizeSeedPhrase_def [of "normalizeSeedPhrase p"])
     (simp add: normalizeSeedPhrase_def)

lemma validate_normalized:
  "validateSeedPhrase B (normalizeSeedPhrase p) \<longleftrightarrow>
     length (split_ws (toLowerCase (trim p))) = 12 \<and> validateMnemonic B (normalizeSeedPhrase p)"
  by (auto simp: validateSeedPhrase_def normalize_facts WORD_COUNT_def Let_def)


section \<open>Facts about hexadecimal and the bip39 instance\<close>

lemma distinct_hex_digits: "distinct hex_digits" "length hex_digits = 16"
  by (simp_all add: hex_digits_def)

lemma hex_digit_lower: "n < 16 \<Longrightarrow> lower_char (hex_digits ! n) = hex_digits ! n"
proof -
  have "\<forall>c\<in>set hex_digits. lower_char c = c"
    by (simp add: hex_digits_def lower_char_def is_upper_def)
  then show "n < 16 \<Longrightarrow> lower_char (hex_digits ! n) = hex_digits ! n"
    by (simp add: distinct_hex_digits)
qed

lemma hex_value_digit: "n < 16 \<Longrightarrow> hex_value (hex_digits ! n) = Some n"
  by (simp add: hex_value_def hex_digit_lower index_of_nth distinct_hex_digits)

lemma buffer_from_hex_to_hex: "buffer_from_hex (to_hex e) = e"
proof (induction e)
  case Nil
  then show ?case by (simp add: to_hex_def)
next
  case (Cons b e)
  have "unat b div 16 < 16" "unat b mod 16 < 16" using byte_lt [of b] by simp_all
  moreover have "(of_nat (unat b div 16 * 16 + unat b mod 16) :: byte) = b" by simp
  ultimately show ?case
    using Cons by (simp add: to_hex_def hex_value_digit)
qed

lemma derive_depends_on_normalized:
  "deriveKeyPairFromSeedPhrase L B p = deriveKeyPairFromSeedPhrase L B (normalizeSeedPhrase p)"
  by (simp add: deriveKeyPairFromSeedPhrase_def normalizeSeedPhrase_idem)

lemma seedPhraseToEntropy_normalized:
  "seedPhraseToEntropy B (normalizeSeedPhrase p) = seedPhraseToEntropy B p"
  by (simp add: seedPhraseToEntropy_def normalizeSeedPhrase_idem)

lemma entropy_of_valid:
  assumes "bip39_contract B" "validateSeedPhrase B (normalizeSeedPhrase p)"
  shows "\<exists>e. seedPhraseToEntropy B p = Inr e
           \<and> mnemonicToEntropy B (normalizeSeedPhrase p) = Inr (to_hex e)"
proof -
  let ?N = "normalizeSeedPhrase p"
  from assms(2) have v: "validateMnemonic B ?N"
    by (simp add: validate_normalized)
  from assms(1) v obtain h where h: "mnemonicToEntropy B ?N = Inr h"
    unfolding bip39_contract_def by blast
  with assms(1) obtain e where e: "h = to_hex e"
    unfolding bip39_contract_def by blast
  with assms(2) h show ?thesis
    by (simp add: seedPhraseToEntropy_def buffer_from_hex_to_hex)
qed

lemma bip39_of_contract: "bip39_contract (bip39_of wordlist hash)"
proof -
  have "\<exists>e. h = to_hex e"
    if "bip39_mnemonicToEntropy wordlist hash m = Inr h" for m h
    using that
    by (auto simp: bip39_mnemonicToEntropy_def Let_def split: if_splits option.splits)
  then show ?thesis
    by (auto simp: bip39_contract_def bip39_of_def split: sum.splits)
qed

lemma toy_hash_contract: "hash_contract toy_nacl"
  by (simp add: hash_contract_def toy_nacl_def)

lemma test_phrase_entropy:
  "mnemonicToEntropy ref_bip39 test_phrase = Inr ''00000000000000000000000000000000''"
  by code_simp

text \<open>
  The normal form turns a no-break space into a space, so bip39 reads twelve words from
  a phrase that holds no space at all.
\<close>

lemma nbsp_phrase_entropy:
  "mnemonicToEntropy ref_bip39 nbsp_phrase = Inr ''00000000000000000000000000000000''"
  by code_simp

lemma test_phrase_shape:
  "toLowerCase (trim test_phrase) = test_phrase"
  "length (split_ws test_phrase) = 12"
  "normalizeSeedPhrase test_phrase = test_phrase"
  "normalizeSeedPhrase typed_phrase = test_phrase"
  "normalizeSeedPhrase spaced_phrase = test_phrase"
  by code_simp+

lemma zero_entropy_hex:
  "to_hex (replicate 16 0) = ''00000000000000000000000000000000''"
  "buffer_from_hex ''00000000000000000000000000000000'' = replicate 16 0"
  by code_simp+

lemma test_phrase_valid: "validateSeedPhrase ref_bip39 test_phrase"
proof -
  have "validateMnemonic ref_bip39 test_phrase"
    using test_phrase_entropy by (simp add: ref_bip39_def bip39_of_def)
  then show ?thesis
    by (simp add: validateSeedPhrase_def test_phrase_shape WORD_COUNT_def)
qed

lemma spaced_phrase_invalid: "\<not> validateSeedPhrase ref_bip39 spaced_phrase"
  by code_simp


section \<open>Symmetric encryption\<close>

text \<open>
  C1: for every byte buffer \<open>d\<close>, the empty one included, and every string \<open>k\<close> that
  is the Base64 form of a 32-byte key, \<open>encrypt\<close> succeeds and \<open>decrypt\<close> of its
  payload under \<open>k\<close> succeeds and returns exactly \<open>d\<close>, whatever nonce the random
  source gives. tweetnacl is assumed to open what it sealed.
\<close>

theorem encrypt_decrypt_roundtrip:
  assumes "secretbox_contract L" "decodeBase64 k = Inr kb" "length kb = 32"
  shows "\<exists>p g'. encrypt L d k g = Inr (p, g') \<and> decrypt L p k = Inr d"
proof -
  let ?nonce = "fst (randomBytes 24 g)"
  let ?ct = "crypto_secretbox L d ?nonce kb"
  have n: "length ?nonce = 24" by (rule randomBytes_length)
  from assms(1) n assms(3)
  have op: "crypto_secretbox_open L ?ct ?nonce kb = Some d"
    and len: "length ?ct = length d + 16"
    unfolding secretbox_contract_def by blast+
  have "decrypt L (encodeBase64 (1 # ?nonce @ ?ct)) k = Inr d"
    using decrypt_payload [OF assms(2,3) n, of ?ct L] op len by simp
  then show ?thesis
    using encrypt_value [OF assms(2,3), of L d g] by simp
qed

theorem encrypt_decrypt_roundtrip_witness:
  "secretbox_contract toy_nacl \<and> decodeBase64 key_A = Inr (replicate 32 7)
   \<and> length (replicate 32 (7 :: byte)) = 32
   \<and> (\<exists>p g'. encrypt toy_nacl [] key_A counting = Inr (p, g')
          \<and> decrypt toy_nacl p key_A = Inr [])"
  using encrypt_decrypt_roundtrip [OF toy_secretbox_contract key_A_decodes, of "[]" counting]
    toy_secretbox_contract key_A_decodes
  by simp

text \<open>
  C7: two calls of \<open>encrypt\<close> on the same data and key, at the states \<open>g1\<close> and
  \<open>g2\<close> of the random source, both succeed, and their payloads differ whenever the
  two nonces drawn differ.
\<close>

theorem encrypt_fresh_nonce:
  assumes "decodeBase64 k = Inr kb" "length kb = 32"
    and "fst (randomBytes NONCE_BYTES g1) \<noteq> fst (randomBytes NONCE_BYTES g2)"
  shows "\<exists>p1 p2 g1' g2'. encrypt L d k g1 = Inr (p1, g1') \<and> encrypt L d k g2 = Inr (p2, g2')
           \<and> p1 \<noteq> p2"
proof -
  let ?n1 = "fst (randomBytes 24 g1)" and ?n2 = "fst (randomBytes 24 g2)"
  have "length ?n1 = length ?n2" by (simp add: randomBytes_length)
  with assms(3)
  have "1 # ?n1 @ crypto_secretbox L d ?n1 kb \<noteq> 1 # ?n2 @ crypto_secretbox L d ?n2 kb"
    by (simp add: NONCE_BYTES_def)
  then have "encodeBase64 (1 # ?n1 @ crypto_secretbox L d ?n1 kb)
      \<noteq> encodeBase64 (1 # ?n2 @ crypto_secretbox L d ?n2 kb)"
    using encodeBase64_inject by blast
  then show ?thesis
    using encrypt_value [OF assms(1,2), of L d g1] encrypt_value [OF assms(1,2), of L d g2]
    by simp
qed

text \<open>The second call reads the random source where the first call left it.\<close>

theorem encrypt_fresh_nonce_witness:
  "fst (randomBytes NONCE_BYTES counting)
     \<noteq> fst (randomBytes NONCE_BYTES (snd (randomBytes NONCE_BYTES counting)))
   \<and> (\<exists>p1 p2 g1' g2'. encrypt toy_nacl [1, 2, 3] key_A counting = Inr (p1, g1')
         \<and> encrypt toy_nacl [1, 2, 3] key_A (snd (randomBytes NONCE_BYTES counting))
             = Inr (p2, g2')
         \<and> p1 \<noteq> p2)"
  using encrypt_fresh_nonce [OF key_A_decodes _ counting_nonces_differ, of toy_nacl "[1, 2, 3]"]
    counting_nonces_differ
  by simp

text \<open>
  C5, as the claim states it, fails: a payload of 41 bytes whose version byte is 0 and
  whose ciphertext authenticated decryption rejects does not fail with
  \<open>DecryptionFailed\<close>. \<open>decrypt\<close> decodes version 1 only and raises
  'Nicht unterstuetzte Payload-Version' for version 0 before it tries to decrypt.
\<close>

theorem decrypt_version_zero_counterexample:
  "decodeBase64 ''AAAAAAAAAAAAAAAAAAAAAAAAAAAAAAAAAAEBAQEBAQEBAQEBAQEBAQE=''
     = Inr (0 # replicate 24 0 @ replicate 16 1)
   \<and> decodeBase64 ''BwcHBwcHBwcHBwcHBwcHBwcHBwcHBwcHBwcHBwcHBwc='' = Inr (replicate 32 7)
   \<and> crypto_secretbox_open toy_nacl (replicate 16 1) (replicate 24 0) (replicate 32 7) = None
   \<and> decrypt toy_nacl ''AAAAAAAAAAAAAAAAAAAAAAAAAAAAAAAAAAEBAQEBAQEBAQEBAQEBAQE=''
        ''BwcHBwcHBwcHBwcHBwcHBwcHBwcHBwcHBwcHBwcHBwc='' = Inl (UnsupportedVersion 0)"
  by code_simp

text \<open>
  C5, amended: for a payload that decodes to \<open>pb\<close> and a 32-byte key, \<open>decrypt\<close>
  fails with \<open>PayloadTooShort\<close> when \<open>pb\<close> has fewer than 1 + 24 + 16 bytes;
  otherwise with \<open>UnknownVersion\<close> when the version byte exceeds 1; otherwise with
  the unsupported-version error when the version byte is 0; otherwise (version 1) with
  \<open>DecryptionFailed\<close> when authenticated decryption rejects the ciphertext. Whatever
  it returns is the plaintext that authenticated decryption released, never a part of one.
\<close>

theorem decrypt_failure_order:
  assumes "decodeBase64 payload = Inr pb" "decodeBase64 key = Inr kb" "length kb = 32"
  shows "(length pb < 1 + 24 + 16 \<longrightarrow> decrypt L payload key = Inl PayloadTooShort)
    \<and> (1 + 24 + 16 \<le> length pb \<and> hd pb > 1 \<longrightarrow>
          decrypt L payload key = Inl (UnknownVersion (Some (hd pb))))
    \<and> (1 + 24 + 16 \<le> length pb \<and> hd pb = 0 \<longrightarrow>
          decrypt L payload key = Inl (UnsupportedVersion 0))
    \<and> (1 + 24 + 16 \<le> length pb \<and> hd pb = 1
          \<and> crypto_secretbox_open L (payload_ciphertext pb) (payload_nonce pb) kb = None \<longrightarrow>
          decrypt L payload key = Inl DecryptionFailed)
    \<and> (\<forall>d. decrypt L payload key = Inr d \<longrightarrow>
          crypto_secretbox_open L (payload_ciphertext pb) (payload_nonce pb) kb = Some d)"
proof (cases pb)
  case Nil
  with assms show ?thesis by (simp add: decrypt_def consts_defs)
next
  case (Cons v rest)
  have v: "v \<le> 1 \<Longrightarrow> v \<noteq> 1 \<Longrightarrow> v = 0"
    by (auto simp: word_le_nat_alt word_unat_eq_iff)
  have n: "24 \<le> length rest \<Longrightarrow> length (payload_nonce pb) = 24"
    using Cons by (simp add: payload_nonce_def slice_def consts_defs)
  show ?thesis
    using assms Cons v n
    by (auto simp: decrypt_def consts_defs decryptV1_def nacl_secretbox_open_def
        payload_nonce_def payload_ciphertext_def Let_def not_less
        split: option.splits if_splits)
qed

theorem decrypt_failure_order_witness:
  "decrypt toy_nacl (encodeBase64 [1, 2, 3]) key_A = Inl PayloadTooShort
   \<and> decrypt toy_nacl (encodeBase64 (2 # replicate 40 0)) key_A = Inl (UnknownVersion (Some 2))
   \<and> decrypt toy_nacl (encodeBase64 (0 # replicate 40 0)) key_A = Inl (UnsupportedVersion 0)
   \<and> crypto_secretbox_open toy_nacl (replicate 16 1) (replicate 24 0) (replicate 32 7) = None
   \<and> decrypt toy_nacl (encodeBase64 (1 # replicate 24 0 @ replicate 16 1)) key_A
       = Inl DecryptionFailed"
proof -
  have k: "length (replicate 32 (7 :: byte)) = 32" by simp
  note t = decrypt_failure_order
    [where L = toy_nacl, OF decodeBase64_encodeBase64 key_A_decodes k]
  have "decrypt toy_nacl (encodeBase64 [1, 2, 3]) key_A = Inl PayloadTooShort"
    using t [of "[1, 2, 3]"] by simp
  moreover have "decrypt toy_nacl (encodeBase64 (2 # replicate 40 0)) key_A
      = Inl (UnknownVersion (Some 2))"
    using t [of "2 # replicate 40 0"] by simp
  moreover have "decrypt toy_nacl (encodeBase64 (0 # replicate 40 0)) key_A
      = Inl (UnsupportedVersion 0)"
    using t [of "0 # replicate 40 0"] by simp
  moreover have "decrypt toy_nacl (encodeBase64 (1 # replicate 24 0 @ replicate 16 1)) key_A
      = Inl DecryptionFailed"
    using t [of "1 # replicate 24 0 @ replicate 16 1"] toy_rejects_ones
    by (simp add: payload_nonce_def payload_ciphertext_def slice_def slice_from_def
        VERSION_BYTES_def NONCE_BYTES_def)
  ultimately show ?thesis using toy_rejects_ones by simp
qed

section \<open>Key exchange\<close>




text \<open>
  C8, as the claim states it, fails: the payload below holds a box that opens, under the
  sender's public and the recipient's private key, to a plaintext of 5 bytes, and
  \<open>decryptKeyFromSender\<close> fails with \<open>PayloadTooShort\<close>, not with
  \<open>CorruptKey\<close>. A box is 16 bytes longer than its plaintext, so a plaintext shorter
  than 32 bytes never passes the length check that comes before decryption.
\<close>

theorem decryptKeyFromSender_short_counterexample:
  "decodeBase64 ''AQAAAAAAAAAAAAAAAAAAAAAAAAAAAAAAAO/v7+/v7+/v7+/v7+/v7+/h4uPk5Q==''
     = Inr (1 # replicate 24 0 @ replicate 16 239 @ [225, 226, 227, 228, 229])
   \<and> decodeBase64 ''Dw8PDw8PDw8PDw8PDw8PDw8PDw8PDw8PDw8PDw8PDw8='' = Inr (replicate 32 15)
   \<and> decodeBase64 ''CQkJCQkJCQkJCQkJCQkJCQkJCQkJCQkJCQkJCQkJCQk='' = Inr (replicate 32 9)
   \<and> crypto_box_open toy_nacl (replicate 16 239 @ [225, 226, 227, 228, 229]) (replicate 24 0)
         (replicate 32 15) (replicate 32 9) = Some [1, 2, 3, 4, 5]
   \<and> decryptKeyFromSender toy_nacl
         ''AQAAAAAAAAAAAAAAAAAAAAAAAAAAAAAAAO/v7+/v7+/v7+/v7+/v7+/h4uPk5Q==''
         ''Dw8PDw8PDw8PDw8PDw8PDw8PDw8PDw8PDw8PDw8PDw8=''
         ''CQkJCQkJCQkJCQkJCQkJCQkJCQkJCQkJCQkJCQkJCQk='' = Inl PayloadTooShort"
  by code_simp

text \<open>
  C8, amended: \<open>decryptKeyFromSender\<close> never returns a value that is not the Base64
  form of 32 bytes. For a payload of at least 1 + 24 + 32 + 16 bytes whose version byte
  is at most 1, given keys of 32 bytes: when the box opens to a plaintext that is not 32
  bytes long, the function fails with \<open>CorruptKey\<close>. A shorter payload fails with
  \<open>PayloadTooShort\<close> before any decryption.
\<close>

theorem decryptKeyFromSender_key_length:
  "(\<forall>k. decryptKeyFromSender L p pk sk = Inr k \<longrightarrow>
        (\<exists>kb. decodeBase64 k = Inr kb \<and> length kb = 32))
   \<and> (\<forall>pb pkb skb pt.
          decodeBase64 p = Inr pb \<and> decodeBase64 pk = Inr pkb \<and> length pkb = 32
          \<and> decodeBase64 sk = Inr skb \<and> length skb = 32
          \<and> 1 + 24 + 32 + 16 \<le> length pb \<and> hd pb \<le> 1
          \<and> crypto_box_open L (payload_ciphertext pb) (payload_nonce pb) pkb skb = Some pt
          \<and> length pt \<noteq> 32
        \<longrightarrow> decryptKeyFromSender L p pk sk = Inl CorruptKey)
   \<and> (\<forall>pb pkb skb.
          decodeBase64 p = Inr pb \<and> decodeBase64 pk = Inr pkb \<and> length pkb = 32
          \<and> decodeBase64 sk = Inr skb \<and> length skb = 32
          \<and> length pb < 1 + 24 + 32 + 16
        \<longrightarrow> decryptKeyFromSender L p pk sk = Inl PayloadTooShort)"
proof (intro conjI allI impI)
  fix k
  assume "decryptKeyFromSender L p pk sk = Inr k"
  then obtain d where "k = encodeBase64 d" "length d = 32"
    by (auto simp: decryptKeyFromSender_def Let_def consts_defs
        split: sum.splits if_splits list.splits option.splits)
  then show "\<exists>kb. decodeBase64 k = Inr kb \<and> length kb = 32"
    by (simp add: decodeBase64_encodeBase64)
next
  fix pb pkb skb pt
  assume h: "decodeBase64 p = Inr pb \<and> decodeBase64 pk = Inr pkb \<and> length pkb = 32
          \<and> decodeBase64 sk = Inr skb \<and> length skb = 32
          \<and> 1 + 24 + 32 + 16 \<le> length pb \<and> hd pb \<le> 1
          \<and> crypto_box_open L (payload_ciphertext pb) (payload_nonce pb) pkb skb = Some pt
          \<and> length pt \<noteq> 32"
  then show "decryptKeyFromSender L p pk sk = Inl CorruptKey"
    using decryptKeyFromSender_value [of p pb pk pkb sk skb L] by simp
next
  fix pb pkb skb
  assume "decodeBase64 p = Inr pb \<and> decodeBase64 pk = Inr pkb \<and> length pkb = 32
          \<and> decodeBase64 sk = Inr skb \<and> length skb = 32
          \<and> length pb < 1 + 24 + 32 + 16"
  then show "decryptKeyFromSender L p pk sk = Inl PayloadTooShort"
    by (simp add: decryptKeyFromSender_def consts_defs)
qed

theorem decryptKeyFromSender_key_length_witness:
  "crypto_box_open toy_nacl
     (crypto_box toy_nacl (replicate 40 1) (replicate 24 0) (toy_public (replicate 32 9)) (replicate 32 5))
     (replicate 24 0) (toy_public (replicate 32 5)) (replicate 32 9) = Some (replicate 40 1)
   \<and> decryptKeyFromSender toy_nacl
         (encodeBase64 (1 # replicate 24 0 @ crypto_box toy_nacl (replicate 40 1) (replicate 24 0)
            (toy_public (replicate 32 9)) (replicate 32 5)))
         pub_alice priv_bob = Inl CorruptKey
   \<and> decryptKeyFromSender toy_nacl (encodeBase64 [1, 2, 3]) pub_alice priv_bob
       = Inl PayloadTooShort"
proof -
  let ?ct = "crypto_box toy_nacl (replicate 40 1) (replicate 24 0)
            (toy_public (replicate 32 9)) (replicate 32 5)"
  let ?pb = "1 # replicate 24 0 @ ?ct"
  have len: "length ?ct = 56"
    by (simp add: toy_nacl_def toy_secretbox_length)
  have "decryptKeyFromSender toy_nacl (encodeBase64 ?pb) pub_alice priv_bob = Inl CorruptKey"
    using decryptKeyFromSender_key_length [of toy_nacl "encodeBase64 ?pb" pub_alice priv_bob]
      toy_long_box len
    by (simp add: decodeBase64_encodeBase64 toy_decodes toy_public_length payload_parts)
  moreover
  have short: "decryptKeyFromSender toy_nacl (encodeBase64 [1, 2, 3]) pub_alice priv_bob
      = Inl PayloadTooShort"
    if "decodeBase64 (encodeBase64 [1, 2, 3]) = Inr pb" "decodeBase64 pub_alice = Inr pkb"
      "length pkb = 32" "decodeBase64 priv_bob = Inr skb" "length skb = 32"
      "length pb < 1 + 24 + 32 + 16" for pb pkb skb
    using decryptKeyFromSender_key_length [of toy_nacl "encodeBase64 [1, 2, 3]" pub_alice priv_bob]
      that by blast
  have "decryptKeyFromSender toy_nacl (encodeBase64 [1, 2, 3]) pub_alice priv_bob
      = Inl PayloadTooShort"
    by (rule short [OF decodeBase64_encodeBase64 toy_decodes(4) _ toy_decodes(2)])
       (simp_all add: toy_public_length)
  ultimately show ?thesis using toy_long_box by simp
qed


section \<open>Distribution of a gallery key\<close>

text \<open>
  C6: for every gallery key, list of recipients, sender key and state of the random
  source, \<open>encryptGalleryKeyForMembers\<close> either fails or returns a list. It fails
  exactly when \<open>encryptKeyForRecipient\<close> fails for one of the recipients, and it
  returns a list exactly when that function succeeds for each of them. A list it
  returns has one grant per recipient, in the order of the recipients and with their
  user ids, and the payload of each grant is what \<open>encryptKeyForRecipient\<close> returns
  for that recipient. From that payload every private key whose public key is the one
  the recipient's string decodes to recovers the gallery key with
  \<open>decryptKeyFromSender\<close>, given a string that decodes to the sender's public key:
  the result is the Base64 form of the bytes of the gallery key, which is the gallery
  key itself when that is in the form the encoder writes. tweetnacl is assumed to open
  what it sealed.
\<close>

theorem members_one_grant_each:
  "(\<forall>grants g'. encryptGalleryKeyForMembers L galleryKey rs ownerPriv g = Inr (grants, g') \<longrightarrow>
       length grants = length rs
       \<and> map grantUserId grants = map userId rs
       \<and> (\<forall>i<length rs. \<exists>gi gi'.
             encryptKeyForRecipient L galleryKey (publicKey (rs ! i)) ownerPriv gi
               = Inr (encryptedGalleryKey (grants ! i), gi'))
       \<and> (box_contract L \<longrightarrow>
            (\<forall>i<length rs. \<forall>priv sk owner ownerPub kb.
                decodeBase64 priv = Inr sk \<and> length sk = 32
                \<and> decodeBase64 (publicKey (rs ! i)) = Inr (crypto_scalarmult_base L sk)
                \<and> decodeBase64 ownerPriv = Inr owner
                \<and> decodeBase64 ownerPub = Inr (crypto_scalarmult_base L owner)
                \<and> decodeBase64 galleryKey = Inr kb
              \<longrightarrow> decryptKeyFromSender L (encryptedGalleryKey (grants ! i)) ownerPub priv
                    = Inr (encodeBase64 kb)
                  \<and> (galleryKey = encodeBase64 kb \<longrightarrow>
                       decryptKeyFromSender L (encryptedGalleryKey (grants ! i)) ownerPub priv
                         = Inr galleryKey))))
   \<and> ((\<exists>e. encryptGalleryKeyForMembers L galleryKey rs ownerPriv g = Inl e)
        \<longleftrightarrow> (\<exists>r\<in>set rs. \<exists>e g0.
               encryptKeyForRecipient L galleryKey (publicKey r) ownerPriv g0 = Inl e))
   \<and> ((\<exists>grants g'. encryptGalleryKeyForMembers L galleryKey rs ownerPriv g = Inr (grants, g'))
        \<longleftrightarrow> (\<forall>r\<in>set rs. \<forall>g0. \<exists>p g1.
               encryptKeyForRecipient L galleryKey (publicKey r) ownerPriv g0 = Inr (p, g1)))"
proof -
  have p1: "\<forall>grants g'.
      encryptGalleryKeyForMembers L galleryKey rs ownerPriv g = Inr (grants, g') \<longrightarrow>
       length grants = length rs
       \<and> map grantUserId grants = map userId rs
       \<and> (\<forall>i<length rs. \<exists>gi gi'.
             encryptKeyForRecipient L galleryKey (publicKey (rs ! i)) ownerPriv gi
               = Inr (encryptedGalleryKey (grants ! i), gi'))
       \<and> (box_contract L \<longrightarrow>
            (\<forall>i<length rs. \<forall>priv sk owner ownerPub kb.
                decodeBase64 priv = Inr sk \<and> length sk = 32
                \<and> decodeBase64 (publicKey (rs ! i)) = Inr (crypto_scalarmult_base L sk)
                \<and> decodeBase64 ownerPriv = Inr owner
                \<and> decodeBase64 ownerPub = Inr (crypto_scalarmult_base L owner)
                \<and> decodeBase64 galleryKey = Inr kb
              \<longrightarrow> decryptKeyFromSender L (encryptedGalleryKey (grants ! i)) ownerPub priv
                    = Inr (encodeBase64 kb)
                  \<and> (galleryKey = encodeBase64 kb \<longrightarrow>
                       decryptKeyFromSender L (encryptedGalleryKey (grants ! i)) ownerPub priv
                         = Inr galleryKey)))"
  proof (intro allI impI)
    fix grants g'
    assume ok: "encryptGalleryKeyForMembers L galleryKey rs ownerPriv g = Inr (grants, g')"
    note s = members_success [OF ok]
    from s have ids: "map grantUserId grants = map userId rs" by simp
    then have len: "length grants = length rs" by (metis length_map)
    from s have pay: "\<forall>i<length rs. \<exists>gi gi'.
             encryptKeyForRecipient L galleryKey (publicKey (rs ! i)) ownerPriv gi
               = Inr (encryptedGalleryKey (grants ! i), gi')"
      by simp
    have opens: "\<forall>i<length rs. \<forall>priv sk owner ownerPub kb.
                decodeBase64 priv = Inr sk \<and> length sk = 32
                \<and> decodeBase64 (publicKey (rs ! i)) = Inr (crypto_scalarmult_base L sk)
                \<and> decodeBase64 ownerPriv = Inr owner
                \<and> decodeBase64 ownerPub = Inr (crypto_scalarmult_base L owner)
                \<and> decodeBase64 galleryKey = Inr kb
              \<longrightarrow> decryptKeyFromSender L (encryptedGalleryKey (grants ! i)) ownerPub priv
                    = Inr (encodeBase64 kb)
                  \<and> (galleryKey = encodeBase64 kb \<longrightarrow>
                       decryptKeyFromSender L (encryptedGalleryKey (grants ! i)) ownerPub priv
                         = Inr galleryKey)"
      if c: "box_contract L"
    proof (intro allI impI)
      fix i priv sk owner ownerPub kb
      assume i: "i < length rs"
        and h: "decodeBase64 priv = Inr sk \<and> length sk = 32
                \<and> decodeBase64 (publicKey (rs ! i)) = Inr (crypto_scalarmult_base L sk)
                \<and> decodeBase64 ownerPriv = Inr owner
                \<and> decodeBase64 ownerPub = Inr (crypto_scalarmult_base L owner)
                \<and> decodeBase64 galleryKey = Inr kb"
      from pay i obtain gi gi' where
        e: "encryptKeyForRecipient L galleryKey (publicKey (rs ! i)) ownerPriv gi
             = Inr (encryptedGalleryKey (grants ! i), gi')"
        by blast
      from h have h1: "decodeBase64 ownerPriv = Inr owner"
        and h2: "decodeBase64 ownerPub = Inr (crypto_scalarmult_base L owner)"
        and h3: "decodeBase64 priv = Inr sk" and h4: "length sk = 32"
        and h5: "decodeBase64 (publicKey (rs ! i)) = Inr (crypto_scalarmult_base L sk)"
        and h6: "decodeBase64 galleryKey = Inr kb"
        by simp_all
      have "decryptKeyFromSender L (encryptedGalleryKey (grants ! i)) ownerPub priv
          = Inr (encodeBase64 kb)"
        by (rule exchange_opens_bytes [OF c h1 h2 h3 h4 h5 h6 e])
      then show "decryptKeyFromSender L (encryptedGalleryKey (grants ! i)) ownerPub priv
                    = Inr (encodeBase64 kb)
                  \<and> (galleryKey = encodeBase64 kb \<longrightarrow>
                       decryptKeyFromSender L (encryptedGalleryKey (grants ! i)) ownerPub priv
                         = Inr galleryKey)"
        by simp
    qed
    from len ids pay opens
    show "length grants = length rs
       \<and> map grantUserId grants = map userId rs
       \<and> (\<forall>i<length rs. \<exists>gi gi'.
             encryptKeyForRecipient L galleryKey (publicKey (rs ! i)) ownerPriv gi
               = Inr (encryptedGalleryKey (grants ! i), gi'))
       \<and> (box_contract L \<longrightarrow>
            (\<forall>i<length rs. \<forall>priv sk owner ownerPub kb.
                decodeBase64 priv = Inr sk \<and> length sk = 32
                \<and> decodeBase64 (publicKey (rs ! i)) = Inr (crypto_scalarmult_base L sk)
                \<and> decodeBase64 ownerPriv = Inr owner
                \<and> decodeBase64 ownerPub = Inr (crypto_scalarmult_base L owner)
                \<and> decodeBase64 galleryKey = Inr kb
              \<longrightarrow> decryptKeyFromSender L (encryptedGalleryKey (grants ! i)) ownerPub priv
                    = Inr (encodeBase64 kb)
                  \<and> (galleryKey = encodeBase64 kb \<longrightarrow>
                       decryptKeyFromSender L (encryptedGalleryKey (grants ! i)) ownerPub priv
                         = Inr galleryKey)))"
      by (intro conjI impI)
  qed
  have p2: "(\<exists>e. encryptGalleryKeyForMembers L galleryKey rs ownerPriv g = Inl e)
        \<longleftrightarrow> (\<exists>r\<in>set rs. \<exists>e g0.
               encryptKeyForRecipient L galleryKey (publicKey r) ownerPriv g0 = Inl e)"
    using members_failure members_fails_somewhere by blast
  have p3: "(\<exists>grants g'. encryptGalleryKeyForMembers L galleryKey rs ownerPriv g
               = Inr (grants, g'))
        \<longleftrightarrow> (\<forall>r\<in>set rs. \<forall>g0. \<exists>p g1.
               encryptKeyForRecipient L galleryKey (publicKey r) ownerPriv g0 = Inr (p, g1))"
  proof
    assume "\<exists>grants g'. encryptGalleryKeyForMembers L galleryKey rs ownerPriv g
        = Inr (grants, g')"
    with p2 have none: "\<not> (\<exists>r\<in>set rs. \<exists>e g0.
        encryptKeyForRecipient L galleryKey (publicKey r) ownerPriv g0 = Inl e)"
      by auto
    show "\<forall>r\<in>set rs. \<forall>g0. \<exists>p g1.
        encryptKeyForRecipient L galleryKey (publicKey r) ownerPriv g0 = Inr (p, g1)"
    proof (intro ballI allI)
      fix r g0
      assume "r \<in> set rs"
      with none show "\<exists>p g1.
          encryptKeyForRecipient L galleryKey (publicKey r) ownerPriv g0 = Inr (p, g1)"
        by (cases "encryptKeyForRecipient L galleryKey (publicKey r) ownerPriv g0") auto
    qed
  next
    assume "\<forall>r\<in>set rs. \<forall>g0. \<exists>p g1.
        encryptKeyForRecipient L galleryKey (publicKey r) ownerPriv g0 = Inr (p, g1)"
    then show "\<exists>grants g'. encryptGalleryKeyForMembers L galleryKey rs ownerPriv g
        = Inr (grants, g')"
      by (rule members_all_succeed)
  qed
  show ?thesis
    by (intro conjI p1 p2 p3)
qed

theorem members_one_grant_each_witness:
  "box_contract toy_nacl
   \<and> pub_bob_alt \<noteq> pub_bob
   \<and> decodeBase64 pub_bob_alt = Inr (crypto_scalarmult_base toy_nacl (replicate 32 9))
   \<and> decodeBase64 priv_bob = Inr (replicate 32 9)
   \<and> decodeBase64 priv_alice = Inr (replicate 32 5)
   \<and> decodeBase64 pub_alice = Inr (crypto_scalarmult_base toy_nacl (replicate 32 5))
   \<and> decodeBase64 key_A = Inr (replicate 32 7)
   \<and> key_A = encodeBase64 (replicate 32 7)
   \<and> (\<exists>grants g'. encryptGalleryKeyForMembers toy_nacl key_A members priv_alice counting
                     = Inr (grants, g')
         \<and> length grants = 2
         \<and> map grantUserId grants = [''user1'', ''user2'']
         \<and> decryptKeyFromSender toy_nacl (encryptedGalleryKey (grants ! 0)) pub_alice priv_bob
             = Inr key_A
         \<and> decryptKeyFromSender toy_nacl (encryptedGalleryKey (grants ! 1)) pub_alice priv_eve
             = Inr key_A)
   \<and> (\<exists>e. encryptGalleryKeyForMembers toy_nacl key_A (members @ [intruder]) priv_alice
            counting = Inl e)"
proof -
  note t = members_one_grant_each [of toy_nacl key_A _ priv_alice counting]
  from t [of members] members_encrypt obtain grants g' where
    g: "encryptGalleryKeyForMembers toy_nacl key_A members priv_alice counting
         = Inr (grants, g')"
    by blast
  from t [of members] g toy_box_contract
  have len: "length grants = length members"
    and ids: "map grantUserId grants = map userId members"
    and opens0: "\<forall>i<length members. \<forall>priv sk owner ownerPub kb.
        decodeBase64 priv = Inr sk \<and> length sk = 32
        \<and> decodeBase64 (publicKey (members ! i)) = Inr (crypto_scalarmult_base toy_nacl sk)
        \<and> decodeBase64 priv_alice = Inr owner
        \<and> decodeBase64 ownerPub = Inr (crypto_scalarmult_base toy_nacl owner)
        \<and> decodeBase64 key_A = Inr kb
        \<longrightarrow> decryptKeyFromSender toy_nacl (encryptedGalleryKey (grants ! i)) ownerPub priv
              = Inr (encodeBase64 kb)
            \<and> (key_A = encodeBase64 kb \<longrightarrow>
                 decryptKeyFromSender toy_nacl (encryptedGalleryKey (grants ! i)) ownerPub priv
                   = Inr key_A)"
    by blast+
  have sb: "crypto_scalarmult_base toy_nacl = toy_public" by (simp add: toy_nacl_def)
  have b: "decryptKeyFromSender toy_nacl (encryptedGalleryKey (grants ! 0)) pub_alice priv_bob
      = Inr key_A"
    using opens0 [rule_format, of 0 priv_bob "replicate 32 9" "replicate 32 5" pub_alice
        "replicate 32 7"]
      toy_decodes pub_bob_alt_decodes(1) key_A_decodes
    by (simp add: members_def sb key_A_def)
  have e: "decryptKeyFromSender toy_nacl (encryptedGalleryKey (grants ! 1)) pub_alice priv_eve
      = Inr key_A"
    using opens0 [rule_format, of 1 priv_eve "replicate 32 11" "replicate 32 5" pub_alice
        "replicate 32 7"]
      toy_decodes key_A_decodes
    by (simp add: members_def sb key_A_def)
  have "\<exists>r\<in>set (members @ [intruder]). \<exists>e g0.
      encryptKeyForRecipient toy_nacl key_A (publicKey r) priv_alice g0 = Inl e"
    using intruder_fails by auto
  with t [of "members @ [intruder]"]
  have f: "\<exists>e. encryptGalleryKeyForMembers toy_nacl key_A (members @ [intruder]) priv_alice
      counting = Inl e"
    by blast
  show ?thesis
    using g len ids b e f toy_box_contract pub_bob_alt_decodes toy_decodes(1,2,4)
    by (auto simp: members_def sb key_A_def decodeBase64_encodeBase64)
qed


section \<open>Recovery phrases\<close>

text \<open>
  C3: \<open>deriveKeyPairFromSeedPhrase\<close> gives the same result for a phrase and for its
  normalisation, so two phrases with one normalisation (the same words in another
  casing, with other white space) give the same key pair; and for a phrase whose
  normalisation validates the result is a key pair, not an error. The function takes
  no random source and no state: it is a function of the phrase, so a repeated call
  returns the same bytes.
\<close>

theorem derive_normalized:
  "deriveKeyPairFromSeedPhrase L B p = deriveKeyPairFromSeedPhrase L B (normalizeSeedPhrase p)
   \<and> (normalizeSeedPhrase q = normalizeSeedPhrase p \<longrightarrow>
        deriveKeyPairFromSeedPhrase L B q = deriveKeyPairFromSeedPhrase L B p)
   \<and> (bip39_contract B \<and> hash_contract L \<and> validateSeedPhrase B (normalizeSeedPhrase p) \<longrightarrow>
        (\<exists>kp. deriveKeyPairFromSeedPhrase L B p = Inr kp))"
proof (intro conjI impI)
  show "deriveKeyPairFromSeedPhrase L B p = deriveKeyPairFromSeedPhrase L B (normalizeSeedPhrase p)"
    by (rule derive_depends_on_normalized)
next
  assume "normalizeSeedPhrase q = normalizeSeedPhrase p"
  then show "deriveKeyPairFromSeedPhrase L B q = deriveKeyPairFromSeedPhrase L B p"
    using derive_depends_on_normalized [of L B q] derive_depends_on_normalized [of L B p]
    by simp
next
  assume h: "bip39_contract B \<and> hash_contract L \<and> validateSeedPhrase B (normalizeSeedPhrase p)"
  then obtain e where e: "seedPhraseToEntropy B p = Inr e"
    using entropy_of_valid by blast
  from h have "length (crypto_hash L e) = 64" by (simp add: hash_contract_def)
  then have "length (slice (crypto_hash L e) 0 PRIVATE_KEY) = 32"
    by (simp add: slice_def PRIVATE_KEY_def)
  with h e show "\<exists>kp. deriveKeyPairFromSeedPhrase L B p = Inr kp"
    by (simp add: deriveKeyPairFromSeedPhrase_def seedPhraseToEntropy_normalized Let_def
        nacl_box_keyPair_fromSecretKey_def)
qed

theorem derive_normalized_witness:
  "normalizeSeedPhrase typed_phrase = normalizeSeedPhrase test_phrase
   \<and> bip39_contract ref_bip39 \<and> hash_contract toy_nacl
   \<and> validateSeedPhrase ref_bip39 (normalizeSeedPhrase typed_phrase)
   \<and> (\<exists>kp. deriveKeyPairFromSeedPhrase toy_nacl ref_bip39 typed_phrase = Inr kp
         \<and> deriveKeyPairFromSeedPhrase toy_nacl ref_bip39 test_phrase = Inr kp
         \<and> deriveKeyPairFromSeedPhrase toy_nacl ref_bip39 (normalizeSeedPhrase typed_phrase)
             = Inr kp)"
proof -
  have c: "bip39_contract ref_bip39"
    unfolding ref_bip39_def by (rule bip39_of_contract)
  have n: "normalizeSeedPhrase typed_phrase = normalizeSeedPhrase test_phrase"
    by (simp add: test_phrase_shape)
  have v: "validateSeedPhrase ref_bip39 (normalizeSeedPhrase typed_phrase)"
    using test_phrase_valid by (simp add: test_phrase_shape)
  note t = derive_normalized [of toy_nacl ref_bip39 typed_phrase test_phrase]
  from t c toy_hash_contract v
  obtain kp where "deriveKeyPairFromSeedPhrase toy_nacl ref_bip39 typed_phrase = Inr kp"
    by blast
  moreover from t n
  have "deriveKeyPairFromSeedPhrase toy_nacl ref_bip39 test_phrase
      = deriveKeyPairFromSeedPhrase toy_nacl ref_bip39 typed_phrase"
    by simp
  moreover from t
  have "deriveKeyPairFromSeedPhrase toy_nacl ref_bip39 (normalizeSeedPhrase typed_phrase)
      = deriveKeyPairFromSeedPhrase toy_nacl ref_bip39 typed_phrase"
    by simp
  ultimately show ?thesis
    using n c toy_hash_contract v by simp
qed


text \<open>
  C4 does not hold of the code, and the fault is in \<open>validateSeedPhrase\<close>. For the
  test phrase typed with two blanks after its first word, \<open>validateSeedPhrase\<close>
  counts twelve words, since it splits at runs of white space, but hands the phrase to
  bip39 with both blanks still in it; bip39 splits at single spaces, meets an empty
  word, and the function returns false, although the phrase is twelve words of the list
  with the right checksum and the function is documented to normalise what it is given.
  \<open>seedPhraseToEntropy\<close> collapses the blanks before it validates: it accepts the
  same phrase and returns its sixteen bytes. So \<open>seedPhraseToEntropy\<close> succeeds on
  a phrase for which \<open>validateSeedPhrase\<close> returns false.
\<close>

theorem validateSeedPhrase_keeps_inner_blanks:
  "spaced_phrase =
     ''abandon  abandon abandon abandon abandon abandon abandon abandon abandon abandon abandon about''
   \<and> length (split_ws (toLowerCase (trim spaced_phrase))) = 12
   \<and> validateSeedPhrase ref_bip39 spaced_phrase = False
   \<and> validateSeedPhrase ref_bip39 (normalizeSeedPhrase spaced_phrase) = True
   \<and> seedPhraseToEntropy ref_bip39 spaced_phrase = Inr (replicate 16 0)"
proof -
  have "seedPhraseToEntropy ref_bip39 spaced_phrase = Inr (replicate 16 0)"
    using test_phrase_valid test_phrase_entropy
    by (simp add: seedPhraseToEntropy_def test_phrase_shape zero_entropy_hex
        del: buffer_from_hex.simps)
  moreover have "length (split_ws (toLowerCase (trim spaced_phrase))) = 12"
    by code_simp
  ultimately show ?thesis
    using spaced_phrase_invalid test_phrase_valid
    by (simp add: spaced_phrase_def [symmetric] test_phrase_shape)
qed


section \<open>The quiz positions\<close>

lemma excess_bits_small: "n < 2 ^ 53 \<Longrightarrow> excess_bits n = 0"
  by (subst excess_bits.simps) simp

lemma excess_bits_le: "n < 2 ^ 53 * 2 ^ j \<Longrightarrow> excess_bits n \<le> j"
proof (induction j arbitrary: n)
  case 0
  then show ?case by (simp add: excess_bits_small)
next
  case (Suc j)
  from Suc.prems have "n div 2 < 2 ^ 53 * 2 ^ j" by simp
  from Suc.IH [OF this] show ?case
    by (subst excess_bits.simps) simp
qed

lemma round_half_even_bounds:
  assumes "0 \<le> n"
  shows "0 \<le> round_half_even n k * 2 ^ k"
    and "2 * (round_half_even n k * 2 ^ k) \<le> 2 * n + 2 ^ k"
proof -
  let ?q = "n div 2 ^ k" and ?r = "n mod 2 ^ k"
  have n: "n = ?q * 2 ^ k + ?r" by (rule div_mult_mod_eq [symmetric])
  have r: "0 \<le> ?r" "?r < 2 ^ k" by simp_all
  have q: "0 \<le> ?q" using assms by (simp add: pos_imp_zdiv_nonneg_iff)
  have up: "(?q + 1) * 2 ^ k = ?q * 2 ^ k + 2 ^ k" by (simp add: distrib_right)
  have "0 \<le> ?q * 2 ^ k" using q by simp
  then show "0 \<le> round_half_even n k * 2 ^ k"
    using q by (simp add: round_half_even_def Let_def)
  show "2 * (round_half_even n k * 2 ^ k) \<le> 2 * n + 2 ^ k"
  proof (cases "2 ^ k < 2 * ?r \<or> (2 * ?r = 2 ^ k \<and> odd ?q)")
    case True
    then have "round_half_even n k * 2 ^ k = ?q * 2 ^ k + 2 ^ k"
      using up by (simp add: round_half_even_def Let_def)
    moreover from True have "2 ^ k \<le> 2 * ?r" by auto
    ultimately show ?thesis using n by linarith
  next
    case False
    then have "round_half_even n k * 2 ^ k = ?q * 2 ^ k"
      by (simp add: round_half_even_def Let_def)
    then show ?thesis using n r by linarith
  qed
qed

lemma random_pos_range:
  assumes "is_random (rnd i)"
  shows "1 \<le> random_pos rnd i \<and> random_pos rnd i \<le> 12"
proof -
  obtain m e where d: "rnd i = (m, e)" by (cases "rnd i")
  with assms have m: "0 \<le> m" "m < 2 ^ 53" "m < 2 ^ e"
    by (simp_all add: is_random_def)
  let ?n = "m * 12"
  let ?k = "excess_bits ?n"
  let ?p = "round_half_even ?n ?k * 2 ^ ?k"
  have "?n < 2 ^ 53 * 2 ^ 4" using m(2) by simp
  then have "?k \<le> 4" by (rule excess_bits_le)
  then have "(2 :: int) ^ ?k \<le> 2 ^ 4" by (intro power_increasing) simp_all
  then have k: "(2 :: int) ^ ?k \<le> 16" by simp
  have n0: "0 \<le> ?n" using m(1) by simp
  note b = round_half_even_bounds [OF n0, of ?k]
  from m(3) have "m + 1 \<le> 2 ^ e" by simp
  then have "?n + 12 \<le> 12 * 2 ^ e" by simp
  with b(2) k have "?p < 12 * 2 ^ e" by linarith
  have "?p div 2 ^ e < 12"
  proof (rule ccontr)
    assume "\<not> ?p div 2 ^ e < 12"
    then have "12 * 2 ^ e \<le> ?p div 2 ^ e * 2 ^ e"
      by (intro mult_right_mono) simp_all
    moreover have "?p = ?p div 2 ^ e * 2 ^ e + ?p mod 2 ^ e"
      by (rule div_mult_mod_eq [symmetric])
    moreover have "0 \<le> ?p mod (2 :: int) ^ e" by simp
    ultimately show False using \<open>?p < 12 * 2 ^ e\<close> by linarith
  qed
  moreover have "0 \<le> ?p div 2 ^ e"
    using b(1) by (simp add: pos_imp_zdiv_nonneg_iff)
  ultimately show ?thesis
    by (simp add: random_pos_def d WORD_COUNT_def Let_def)
qed

lemma random_pos_sixteenths: "random_pos sixteenths i = (3 * int (i mod 16)) div 4 + 1"
proof -
  have "int (i mod 16) * 12 < 2 ^ 53" by simp
  then have "excess_bits (int (i mod 16) * 12) = 0" by (rule excess_bits_small)
  then show ?thesis
    by (simp add: random_pos_def sixteenths_def WORD_COUNT_def Let_def round_half_even_def)
qed

lemma random_pos_below_twelfth: "random_pos below_twelfth i = 2"
  apply (simp add: random_pos_def below_twelfth_def WORD_COUNT_def Let_def)
  apply (subst excess_bits.simps, simp)+
  apply (simp add: round_half_even_def)
  done

lemma random_pos_stuck: "random_pos stuck i = 1"
  by (simp add: random_pos_def stuck_def WORD_COUNT_def Let_def excess_bits_small
      round_half_even_def)


lemma set_add_set: "set (set_add ps x) = insert x (set ps)"
  by (auto simp: set_add_def)

lemma set_add_distinct: "distinct ps \<Longrightarrow> distinct (set_add ps x)"
  by (simp add: set_add_def)

lemma set_add_length: "length (set_add ps x) \<le> Suc (length ps)"
  by (simp add: set_add_def)

lemma size_less_ceiling: "size_less n (Finite x) \<longleftrightarrow> int n < \<lceil>x\<rceil>"
  by (simp add: size_less_def less_ceiling_iff)

lemma quiz_loop_returns:
  assumes "distinct ps" "set ps = random_pos rnd ` {..<i}"
    and "\<lceil>x\<rceil> \<le> int (card (random_pos rnd ` {..<n}))"
  shows "\<exists>ps'. quiz_loop rnd (Finite x) i ps = Some ps'"
  using assms
proof (induction "n - i" arbitrary: i ps rule: less_induct)
  case less
  show ?case
  proof (cases "int (length ps) < \<lceil>x\<rceil>")
    case False
    then show ?thesis
      by (subst quiz_loop.simps) (simp add: size_less_ceiling)
  next
    case True
    have card: "length ps = card (random_pos rnd ` {..<i})"
      using less.prems(1,2) distinct_card by metis
    have "i < n"
    proof (rule ccontr)
      assume "\<not> i < n"
      then have "random_pos rnd ` {..<n} \<subseteq> random_pos rnd ` {..<i}" by auto
      then have "card (random_pos rnd ` {..<n}) \<le> card (random_pos rnd ` {..<i})"
        by (simp add: card_mono)
      with True card less.prems(3) show False by simp
    qed
    let ?ps = "set_add ps (random_pos rnd i)"
    have "\<exists>ps'. quiz_loop rnd (Finite x) (Suc i) ?ps = Some ps'"
    proof (rule less.hyps)
      show "n - Suc i < n - i" using \<open>i < n\<close> by simp
      show "distinct ?ps" using less.prems(1) by (rule set_add_distinct)
      show "set ?ps = random_pos rnd ` {..<Suc i}"
        by (simp add: set_add_set less.prems(2) lessThan_Suc)
      show "\<lceil>x\<rceil> \<le> int (card (random_pos rnd ` {..<n}))" by (rule less.prems(3))
    qed
    with True show ?thesis
      by (subst quiz_loop.simps) (simp add: size_less_ceiling)
  qed
qed

lemma quiz_loop_Some:
  assumes "quiz_loop rnd count i ps = Some r"
    and "distinct ps" "set ps = random_pos rnd ` {..<i}"
  shows "\<exists>n. distinct r \<and> set r = random_pos rnd ` {..<n} \<and> \<not> size_less (length r) count
           \<and> (length ps \<le> length r)
           \<and> (length ps < length r \<longrightarrow> size_less (length r - 1) count)"
proof -
  let ?P = "\<lambda>rnd count i ps r. distinct ps \<and> set ps = random_pos rnd ` {..<i} \<longrightarrow>
        (\<exists>n. distinct r \<and> set r = random_pos rnd ` {..<n} \<and> \<not> size_less (length r) count
           \<and> (length ps \<le> length r)
           \<and> (length ps < length r \<longrightarrow> size_less (length r - 1) count))"
  have "?P rnd count i ps r"
  proof (rule quiz_loop.raw_induct [where P = ?P, OF _ assms(1)])
    fix f rnd count i ps r
    assume IH: "\<And>rnd count i ps y. f rnd count i ps = Some y \<Longrightarrow> ?P rnd count i ps y"
      and eq: "(if size_less (length ps) count
                then f rnd count (Suc i) (set_add ps (random_pos rnd i))
                else Some ps) = Some r"
    show "?P rnd count i ps r"
    proof (cases "size_less (length ps) count")
      case True
      let ?ps = "set_add ps (random_pos rnd i)"
      from True eq have call: "f rnd count (Suc i) ?ps = Some r"
        by simp
      show ?thesis
      proof
        assume h: "distinct ps \<and> set ps = random_pos rnd ` {..<i}"
        then have "distinct ?ps \<and> set ?ps = random_pos rnd ` {..<Suc i}"
          by (simp add: set_add_distinct set_add_set lessThan_Suc)
        with IH [OF call] obtain n where
          n: "distinct r" "set r = random_pos rnd ` {..<n}" "\<not> size_less (length r) count"
            "length ?ps \<le> length r"
            "length ?ps < length r \<longrightarrow> size_less (length r - 1) count"
          by blast
        have l: "length ps \<le> length ?ps" by (simp add: set_add_def)
        have "size_less (length r - 1) count" if "length ps < length r"
        proof (cases "length ?ps < length r")
          case True
          with n(5) show ?thesis by simp
        next
          case False
          with n(4) have "length r = length ?ps" by simp
          with that have "length r = Suc (length ps)"
            using set_add_length [of ps "random_pos rnd i"] by simp
          with \<open>size_less (length ps) count\<close> show ?thesis by simp
        qed
        with n l show "\<exists>n. distinct r \<and> set r = random_pos rnd ` {..<n}
            \<and> \<not> size_less (length r) count \<and> (length ps \<le> length r)
            \<and> (length ps < length r \<longrightarrow> size_less (length r - 1) count)"
          by (intro exI [of _ n]) simp
      qed
    next
      case False
      with eq show ?thesis by auto
    qed
  qed
  with assms(2,3) show ?thesis by simp
qed

lemma quiz_loop_never:
  assumes "quiz_loop rnd count i ps = Some r"
    and "\<forall>i. is_random (rnd i)" "\<forall>n \<le> 12. size_less n count"
    and "distinct ps" "set ps = random_pos rnd ` {..<i}"
  shows False
proof -
  from quiz_loop_Some [OF assms(1,4,5)] obtain n where
    n: "distinct r" "set r = random_pos rnd ` {..<n}" "\<not> size_less (length r) count"
    by blast
  have "set r \<subseteq> {1..12}"
    using n(2) assms(2) random_pos_range [of rnd] by auto
  then have "card (set r) \<le> card {1..12::int}"
    by (intro card_mono) auto
  with n(1) have "length r \<le> 12" by (simp add: distinct_card)
  with assms(3) n(3) show False by blast
qed

lemma quiz_loop_finite:
  assumes "quiz_loop rnd (Finite x) 0 [] = Some r" and "\<forall>i. is_random (rnd i)"
  shows "int (length r) = max 0 \<lceil>x\<rceil>" "distinct r" "set r \<subseteq> {1..12}"
    "\<exists>n. \<lceil>x\<rceil> \<le> int (card (random_pos rnd ` {..<n}))"
proof -
  from quiz_loop_Some [OF assms(1)] obtain n where
    n: "distinct r" "set r = random_pos rnd ` {..<n}"
      "\<not> size_less (length r) (Finite x)"
      "0 < length r \<longrightarrow> size_less (length r - 1) (Finite x)"
    by auto
  from n(3) have ge: "\<lceil>x\<rceil> \<le> int (length r)" by (simp add: size_less_ceiling)
  have le: "int (length r) \<le> max 0 \<lceil>x\<rceil>"
  proof (cases "length r")
    case 0
    then show ?thesis by simp
  next
    case (Suc j)
    with n(4) have "int j < \<lceil>x\<rceil>" by (simp add: size_less_ceiling)
    with Suc show ?thesis by simp
  qed
  from ge le show "int (length r) = max 0 \<lceil>x\<rceil>" by simp
  show "distinct r" by (rule n(1))
  show "set r \<subseteq> {1..12}"
    using n(2) assms(2) random_pos_range [of rnd] by auto
  have "\<lceil>x\<rceil> \<le> int (card (random_pos rnd ` {..<n}))"
    using ge n(1,2) by (metis distinct_card)
  then show "\<exists>n. \<lceil>x\<rceil> \<le> int (card (random_pos rnd ` {..<n}))" ..
qed

lemma generateQuizPositions_finite:
  assumes "\<forall>i. is_random (rnd i)"
  shows "(\<exists>ps. generateQuizPositions rnd (Finite x) = Some ps)
           \<longleftrightarrow> (\<exists>n. \<lceil>x\<rceil> \<le> int (card (random_pos rnd ` {..<n})))"
    and "generateQuizPositions rnd (Finite x) = Some ps \<Longrightarrow>
           int (length ps) = max 0 \<lceil>x\<rceil> \<and> distinct ps \<and> sorted ps \<and> set ps \<subseteq> {1..12}"
proof -
  show "(\<exists>ps. generateQuizPositions rnd (Finite x) = Some ps)
           \<longleftrightarrow> (\<exists>n. \<lceil>x\<rceil> \<le> int (card (random_pos rnd ` {..<n})))"
  proof
    assume "\<exists>ps. generateQuizPositions rnd (Finite x) = Some ps"
    then obtain r where "quiz_loop rnd (Finite x) 0 [] = Some r"
      by (auto simp: generateQuizPositions_def)
    from quiz_loop_finite(4) [OF this assms]
    show "\<exists>n. \<lceil>x\<rceil> \<le> int (card (random_pos rnd ` {..<n}))" .
  next
    assume "\<exists>n. \<lceil>x\<rceil> \<le> int (card (random_pos rnd ` {..<n}))"
    then obtain n where n: "\<lceil>x\<rceil> \<le> int (card (random_pos rnd ` {..<n}))" ..
    have "\<exists>ps'. quiz_loop rnd (Finite x) 0 [] = Some ps'"
      by (intro quiz_loop_returns [OF _ _ n]) simp_all
    then show "\<exists>ps. generateQuizPositions rnd (Finite x) = Some ps"
      by (auto simp: generateQuizPositions_def)
  qed
  assume "generateQuizPositions rnd (Finite x) = Some ps"
  then obtain r where r: "quiz_loop rnd (Finite x) 0 [] = Some r" "ps = sort r"
    by (auto simp: generateQuizPositions_def)
  from quiz_loop_finite(1,2,3) [OF r(1) assms] r(2)
  show "int (length ps) = max 0 \<lceil>x\<rceil> \<and> distinct ps \<and> sorted ps \<and> set ps \<subseteq> {1..12}"
    by simp
qed

lemma sixteenths_random: "\<forall>i. is_random (sixteenths i)"
proof
  fix i :: nat
  have "i mod 16 < 16" by simp
  then have "int (i mod 16) < 16" by linarith
  then have "int (i mod 16) < 2 ^ 53" "int (i mod 16) < 2 ^ 4" by simp_all
  then show "is_random (sixteenths i)"
    by (simp add: is_random_def sixteenths_def del: of_nat_mod)
qed

lemma stuck_random: "\<forall>i. is_random (stuck i)"
  by (simp add: is_random_def stuck_def)

lemma sixteenths_three: "3 \<le> int (card (random_pos sixteenths ` {..<4}))"
proof -
  have "{..<4::nat} = {0, 1, 2, 3}" by auto
  then show ?thesis by (simp add: random_pos_sixteenths)
qed

lemma sixteenths_value:
  "generateQuizPositions sixteenths (Finite 3) = Some [1, 2, 3]"
  "generateQuizPositions sixteenths (Finite (5 / 2)) = Some [1, 2, 3]"
  unfolding generateQuizPositions_def
  by ((subst quiz_loop.simps, simp add: random_pos_sixteenths set_add_def size_less_def)+)

text \<open>
  C9, as the claim states it, fails: with a \<open>Math.random\<close> that returns 0 at every
  call, which is a number in \<open>[0, 1)\<close>, every draw is position 1, the set never holds
  two positions, and \<open>generateQuizPositions(2)\<close> never returns.
\<close>

theorem generateQuizPositions_stuck_counterexample:
  "(\<forall>i. is_random (stuck i)) \<and> (\<forall>i. random_pos stuck i = 1)
   \<and> generateQuizPositions stuck (Finite 2) = None"
proof -
  have "quiz_loop stuck (Finite 2) 0 [] = None"
  proof (cases "quiz_loop stuck (Finite 2) 0 []")
    case None
    then show ?thesis .
  next
    case (Some r)
    from quiz_loop_Some [OF Some] obtain n where
      n: "distinct r" "set r = random_pos stuck ` {..<n}" "\<not> size_less (length r) (Finite 2)"
      by auto
    from n(2) have "set r \<subseteq> {1}" by (auto simp: random_pos_stuck)
    then have "card (set r) \<le> card {1::int}" by (intro card_mono) auto
    with n(1) have "length r \<le> 1" by (simp add: distinct_card)
    with n(3) show ?thesis by (simp add: size_less_def)
  qed
  then show ?thesis
    using stuck_random by (simp add: generateQuizPositions_def random_pos_stuck)
qed

text \<open>
  C9, amended: for an integer \<open>count\<close> from 0 to 12, \<open>generateQuizPositions\<close>
  returns exactly when \<open>Math.random\<close> yields \<open>count\<close> different positions within
  some number \<open>n\<close> of draws, and what it then returns are \<open>count\<close> distinct
  positions between 1 and 12 in ascending order; for every \<open>count\<close> above 12, the
  infinite one included, it never returns. \<open>Math.random\<close> is any sequence of binary64
  numbers in \<open>[0, 1)\<close>. The first conjunct is this statement. The others say what the
  function does for the numbers that are no integers from 0 to 12: for a finite
  \<open>count\<close> the loop runs until the set holds \<open>count\<close> rounded up to an integer,
  and for a \<open>count\<close> below 0, \<open>NaN\<close> or the negative infinity it does not run and
  the result is empty.
\<close>

theorem generateQuizPositions_returns_iff:
  assumes random: "\<forall>i. is_random (rnd i)"
  shows "(0 \<le> k \<and> k \<le> 12 \<longrightarrow>
            ((\<exists>ps. generateQuizPositions rnd (Finite (of_int k)) = Some ps)
               \<longleftrightarrow> (\<exists>n. k \<le> int (card (random_pos rnd ` {..<n}))))
            \<and> (\<forall>ps. generateQuizPositions rnd (Finite (of_int k)) = Some ps \<longrightarrow>
                  int (length ps) = k \<and> distinct ps \<and> sorted ps \<and> set ps \<subseteq> {1..12}))
       \<and> (12 < x \<longrightarrow> generateQuizPositions rnd (Finite x) = None)
       \<and> generateQuizPositions rnd PosInfinity = None
       \<and> ((\<exists>ps. generateQuizPositions rnd (Finite x) = Some ps)
               \<longleftrightarrow> (\<exists>n. \<lceil>x\<rceil> \<le> int (card (random_pos rnd ` {..<n}))))
       \<and> (\<forall>ps. generateQuizPositions rnd (Finite x) = Some ps \<longrightarrow>
                  int (length ps) = max 0 \<lceil>x\<rceil> \<and> distinct ps \<and> sorted ps
                  \<and> set ps \<subseteq> {1..12})
       \<and> generateQuizPositions rnd NaN = Some []
       \<and> generateQuizPositions rnd NegInfinity = Some []"
proof -
  note fin = generateQuizPositions_finite [OF random]
  have p1: "0 \<le> k \<and> k \<le> 12 \<longrightarrow>
            ((\<exists>ps. generateQuizPositions rnd (Finite (of_int k)) = Some ps)
               \<longleftrightarrow> (\<exists>n. k \<le> int (card (random_pos rnd ` {..<n}))))
            \<and> (\<forall>ps. generateQuizPositions rnd (Finite (of_int k)) = Some ps \<longrightarrow>
                  int (length ps) = k \<and> distinct ps \<and> sorted ps \<and> set ps \<subseteq> {1..12})"
    using fin(1) [of "of_int k"] fin(2) [of "of_int k"] by auto
  have p2: "12 < x \<longrightarrow> generateQuizPositions rnd (Finite x) = None"
  proof
    assume "12 < x"
    then have "\<forall>n \<le> 12. size_less n (Finite x)" by (auto simp: size_less_def)
    then show "generateQuizPositions rnd (Finite x) = None"
      using quiz_loop_never [of rnd "Finite x" 0 "[]", OF _ random]
      by (cases "quiz_loop rnd (Finite x) 0 []") (auto simp: generateQuizPositions_def)
  qed
  have p3: "generateQuizPositions rnd PosInfinity = None"
    using quiz_loop_never [of rnd PosInfinity 0 "[]", OF _ random]
    by (cases "quiz_loop rnd PosInfinity 0 []")
       (auto simp: generateQuizPositions_def size_less_def)
  have p4: "(\<exists>ps. generateQuizPositions rnd (Finite x) = Some ps)
               \<longleftrightarrow> (\<exists>n. \<lceil>x\<rceil> \<le> int (card (random_pos rnd ` {..<n})))"
    by (rule fin(1))
  have p5: "\<forall>ps. generateQuizPositions rnd (Finite x) = Some ps \<longrightarrow>
                  int (length ps) = max 0 \<lceil>x\<rceil> \<and> distinct ps \<and> sorted ps
                  \<and> set ps \<subseteq> {1..12}"
    using fin(2) by blast
  have p6: "generateQuizPositions rnd NaN = Some []"
    unfolding generateQuizPositions_def
    by (subst quiz_loop.simps) (simp add: size_less_def)
  have p7: "generateQuizPositions rnd NegInfinity = Some []"
    unfolding generateQuizPositions_def
    by (subst quiz_loop.simps) (simp add: size_less_def)
  show ?thesis
    by (intro conjI p1 p2 p3 p4 p5 p6 p7)
qed

theorem generateQuizPositions_returns_iff_witness:
  "(\<forall>i. is_random (sixteenths i))
   \<and> (0 :: int) \<le> 3 \<and> (3 :: int) \<le> 12
   \<and> (\<exists>n. 3 \<le> int (card (random_pos sixteenths ` {..<n})))
   \<and> generateQuizPositions sixteenths (Finite 3) = Some [1, 2, 3]
   \<and> generateQuizPositions sixteenths (Finite (5 / 2)) = Some [1, 2, 3]
   \<and> is_random (below_twelfth 0) \<and> random_pos below_twelfth 0 = 2
   \<and> (12 :: real) < 13
   \<and> generateQuizPositions sixteenths (Finite 13) = None
   \<and> generateQuizPositions sixteenths PosInfinity = None"
proof -
  have "\<exists>n. 3 \<le> int (card (random_pos sixteenths ` {..<n}))"
    using sixteenths_three by blast
  then show ?thesis
    using generateQuizPositions_returns_iff [OF sixteenths_random, of 3 13]
      generateQuizPositions_returns_iff [OF sixteenths_random, of 3 "5 / 2"]
      sixteenths_random sixteenths_value random_pos_below_twelfth
    by (simp add: is_random_def below_twelfth_def)
qed


section \<open>Key validation never raises\<close>

text \<open>
  C10: \<open>validateKey\<close>, \<open>validatePublicKey\<close>, \<open>validatePrivateKey\<close> and
  \<open>validateSymmetricKey\<close> return a boolean for every input string and never raise;
  for a string that \<open>decodeBase64\<close> rejects, the boolean is false.
\<close>

theorem validateKey_total:
  "(\<exists>b. validateKey key n = Inr b)
   \<and> (\<exists>b. validatePublicKey key = Inr b)
   \<and> (\<exists>b. validatePrivateKey key = Inr b)
   \<and> (\<exists>b. validateSymmetricKey key = Inr b)
   \<and> ((\<exists>e. decodeBase64 key = Inl e) \<longrightarrow>
        validateKey key n = Inr False \<and> validatePublicKey key = Inr False
        \<and> validatePrivateKey key = Inr False \<and> validateSymmetricKey key = Inr False)"
  by (cases "decodeBase64 key")
     (auto simp: validateKey_def validatePublicKey_def validatePrivateKey_def
        validateSymmetricKey_def try_catch_def)

theorem validateKey_total_witness:
  "(\<exists>e. decodeBase64 ''not base64!'' = Inl e)
   \<and> validateKey ''not base64!'' 32 = Inr False
   \<and> validatePublicKey ''not base64!'' = Inr False
   \<and> validatePrivateKey ''not base64!'' = Inr False
   \<and> validateSymmetricKey ''not base64!'' = Inr False"
  using validateKey_total [of "''not base64!''" 32] decodeBase64_invalid by simp

end
